theory Spec2Isabelle
  imports
    Main
    "HOL-Library.Sublist"
    "HOL-Library.AList"
    "HOL-Library.Char_ord"
    "HOL-Library.List_Lexorder"
    "HOL-Library.Multiset"
begin

section \<open>A file-per-record JSON store (main.go)\<close>

text \<open>
  The store keeps every record as one file \<open><root>/<collection>/<resource>.json\<close>.
  Its operations \<open>New\<close>, \<open>Write\<close>, \<open>Read\<close>, \<open>ReadAll\<close>, \<open>Delete\<close> and the helper
  \<open>stat\<close> are embedded below, each as a function that takes the file system and returns
  the new one together with the Go return values. The calls they make into the Go
  standard library (\<open>path/filepath\<close>, \<open>os\<close>, \<open>io/ioutil\<close>) are modelled first, on a
  file system without symbolic links, permissions or space limits. \<open>json.Marshal\<close> and
  \<open>json.Unmarshal\<close> are parameters \<open>enc\<close> and \<open>dec\<close> of the operations that use them.
  The mutex table and the logger of the \<open>Driver\<close> are left out: the model is that of one
  sequential caller, and the log calls have no effect on the results.
\<close>

subsection \<open>Path strings: \<open>strings.Join\<close>, \<open>filepath.Clean\<close>, \<open>filepath.Join\<close>\<close>

text \<open>\<open>strings.Split(s, "/")\<close>: the pieces of \<open>s\<close> between the separators.\<close>

fun split_slash :: "string \<Rightarrow> string list" where
  "split_slash [] = [[]]"
| "split_slash (c # cs) =
     (if c = CHR ''/'' then [] # split_slash cs
      else (case split_slash cs of [] \<Rightarrow> [[c]] | x # xs \<Rightarrow> (c # x) # xs))"

text \<open>\<open>strings.Join(elems, "/")\<close>.\<close>

fun join_slash :: "string list \<Rightarrow> string" where
  "join_slash [] = []"
| "join_slash [x] = x"
| "join_slash (x # y # ys) = x @ ''/'' @ join_slash (y # ys)"

definition rooted :: "string \<Rightarrow> bool" where
  "rooted s = (case s of [] \<Rightarrow> False | c # _ \<Rightarrow> c = CHR ''/'')"

text \<open>
  One step of the loop of \<open>filepath.Clean\<close>, on a whole path element. The state is the
  output written so far, as a list of elements, and \<open>dotdot\<close>, the number of leading
  elements that a later \<open>..\<close> must not remove (a leading run of \<open>..\<close> of a relative path).
  An empty element and \<open>.\<close> are dropped; \<open>..\<close> removes the last element when it can, is
  kept at the front of a relative path, and is dropped at the root.
\<close>

fun clean_elem :: "bool \<Rightarrow> string list \<times> nat \<Rightarrow> string \<Rightarrow> string list \<times> nat" where
  "clean_elem rt (out, dotdot) e =
     (if e = [] \<or> e = ''.'' then (out, dotdot)
      else if e = ''..'' then
        (if length out > dotdot then (butlast out, dotdot)
         else if \<not> rt then (out @ [''..''], dotdot + 1)
         else (out, dotdot))
      else (out @ [e], dotdot))"

definition filepath_Clean :: "string \<Rightarrow> string" where
  "filepath_Clean path =
     (if path = [] then ''.''
      else
        let rt = rooted path;
            out = fst (foldl (clean_elem rt) ([], 0) (split_slash path));
            s = (if rt then ''/'' else []) @ join_slash out
        in if s = [] then ''.'' else s)"

text \<open>
  \<open>filepath.Join\<close>: leading empty elements are skipped, the rest is joined with the
  separator and cleaned; the result is empty when every element is.
\<close>

definition filepath_Join :: "string list \<Rightarrow> string" where
  "filepath_Join elem =
     (case dropWhile (\<lambda>e. e = []) elem of
        [] \<Rightarrow> []
      | es \<Rightarrow> filepath_Clean (join_slash es))"

subsection \<open>The file system\<close>

datatype node = File string | Dir

type_synonym path = "string list"

text \<open>
  A file system is the working directory of the process and the nodes that exist, each
  under its absolute path, the list of its elements from the root.
\<close>

record fsys =
  cwd :: path
  nodes :: "(path \<times> node) list"

datatype errno = ENOENT | ENOTDIR | EISDIR | EEXIST | EINVAL | EBUSY

text \<open>
  The errors of the program: \<open>fmt.Errorf\<close> with its message, an error of a system call
  (\<open>*os.PathError\<close>, \<open>*os.LinkError\<close>), and the errors of the two codec calls.
\<close>

datatype error = Errorf string | PathError errno | MarshalError | UnmarshalError

datatype FileMode = ModeDir | ModeRegular

definition os_IsNotExist :: "error \<Rightarrow> bool" where
  "os_IsNotExist err = (err = PathError ENOENT)"

definition lookup :: "fsys \<Rightarrow> path \<Rightarrow> node option" where
  "lookup fs p = map_of (nodes fs) p"

definition is_file :: "fsys \<Rightarrow> path \<Rightarrow> bool" where
  "is_file fs p = (case lookup fs p of Some (File _) \<Rightarrow> True | _ \<Rightarrow> False)"

text \<open>
  What the kernel finds at an absolute path: the node, \<open>ENOTDIR\<close> when the walk meets a
  regular file before the end, \<open>ENOENT\<close> when an element is missing.
\<close>

definition node_at :: "fsys \<Rightarrow> path \<Rightarrow> errno + node" where
  "node_at fs p =
     (case lookup fs p of
        Some n \<Rightarrow> Inr n
      | None \<Rightarrow> if list_ex (is_file fs) (prefixes p) then Inl ENOTDIR else Inl ENOENT)"

text \<open>
  Resolution of a path string: from the root when it starts with a separator, from the
  working directory otherwise; \<open>..\<close> goes to the parent (the root is its own parent).
\<close>

definition walk :: "path \<Rightarrow> string \<Rightarrow> path" where
  "walk p e =
     (if e = [] \<or> e = ''.'' then p else if e = ''..'' then butlast p else p @ [e])"

definition resolve :: "fsys \<Rightarrow> string \<Rightarrow> path" where
  "resolve fs s = foldl walk (if rooted s then [] else cwd fs) (split_slash s)"

definition put :: "fsys \<Rightarrow> path \<Rightarrow> node \<Rightarrow> fsys" where
  "put fs p n = fs\<lparr>nodes := AList.update p n (nodes fs)\<rparr>"

definition mode_of :: "node \<Rightarrow> FileMode" where
  "mode_of n = (case n of Dir \<Rightarrow> ModeDir | File _ \<Rightarrow> ModeRegular)"

definition os_Stat :: "fsys \<Rightarrow> string \<Rightarrow> error + FileMode" where
  "os_Stat fs name =
     (if name = [] then Inl (PathError ENOENT)
      else case node_at fs (resolve fs name) of
             Inl e \<Rightarrow> Inl (PathError e)
           | Inr n \<Rightarrow> Inr (mode_of n))"

text \<open>
  \<open>os.MkdirAll\<close>: fails when the path or one of its ancestors is a regular file, and
  otherwise creates every directory on the way that is missing.
\<close>

definition os_MkdirAll :: "fsys \<Rightarrow> string \<Rightarrow> fsys \<times> error option" where
  "os_MkdirAll fs name =
     (if name = [] then (fs, Some (PathError ENOENT))
      else
        let p = resolve fs name in
        if list_ex (is_file fs) (prefixes p) then (fs, Some (PathError ENOTDIR))
        else (fs\<lparr>nodes := nodes fs @
                     map (\<lambda>q. (q, Dir)) (filter (\<lambda>q. lookup fs q = None) (prefixes p))\<rparr>,
              None))"

text \<open>
  \<open>ioutil.WriteFile\<close>: creates the file or replaces its contents; the parent directory
  must exist.
\<close>

definition ioutil_WriteFile :: "fsys \<Rightarrow> string \<Rightarrow> string \<Rightarrow> fsys \<times> error option" where
  "ioutil_WriteFile fs name b =
     (if name = [] then (fs, Some (PathError ENOENT))
      else
        let p = resolve fs name in
        case node_at fs p of
          Inr Dir \<Rightarrow> (fs, Some (PathError EISDIR))
        | Inr (File _) \<Rightarrow> (put fs p (File b), None)
        | Inl ENOTDIR \<Rightarrow> (fs, Some (PathError ENOTDIR))
        | Inl _ \<Rightarrow>
            if lookup fs (butlast p) = Some Dir then (put fs p (File b), None)
            else (fs, Some (PathError ENOENT)))"

text \<open>
  \<open>os.Rename\<close>: refuses a target that is a directory (\<open>EEXIST\<close>), then renames as
  \<open>rename(2)\<close> does: a regular file replaces a regular file or takes a free name in an
  existing directory (\<open>move_file\<close>); a directory moves with everything below it to a
  free name that is not inside it.
\<close>

definition move_file :: "fsys \<Rightarrow> path \<Rightarrow> path \<Rightarrow> string \<Rightarrow> fsys" where
  "move_file fs po pn b = fs\<lparr>nodes := AList.update pn (File b) (AList.delete po (nodes fs))\<rparr>"

definition os_Rename :: "fsys \<Rightarrow> string \<Rightarrow> string \<Rightarrow> fsys \<times> error option" where
  "os_Rename fs oldname newname =
     (if oldname = [] \<or> newname = [] then (fs, Some (PathError ENOENT))
      else
        let po = resolve fs oldname; pn = resolve fs newname in
        case node_at fs pn of
          Inr Dir \<Rightarrow> (fs, Some (PathError EEXIST))
        | tgt \<Rightarrow>
           (case node_at fs po of
              Inl e \<Rightarrow> (fs, Some (PathError e))
            | Inr (File b) \<Rightarrow>
               (case tgt of
                  Inl ENOTDIR \<Rightarrow> (fs, Some (PathError ENOTDIR))
                | Inl _ \<Rightarrow>
                    if lookup fs (butlast pn) = Some Dir then (move_file fs po pn b, None)
                    else (fs, Some (PathError ENOENT))
                | Inr _ \<Rightarrow> (move_file fs po pn b, None))
            | Inr Dir \<Rightarrow>
               (case tgt of
                  Inr _ \<Rightarrow> (fs, Some (PathError ENOTDIR))
                | Inl ENOTDIR \<Rightarrow> (fs, Some (PathError ENOTDIR))
                | Inl _ \<Rightarrow>
                    if lookup fs (butlast pn) \<noteq> Some Dir then (fs, Some (PathError ENOENT))
                    else if prefix po pn then (fs, Some (PathError EINVAL))
                    else (fs\<lparr>nodes := map (\<lambda>(q, n). if prefix po q
                                                     then (pn @ drop (length po) q, n)
                                                     else (q, n)) (nodes fs)\<rparr>, None))))"

text \<open>
  \<open>os.RemoveAll\<close>: nothing to do for the empty string, \<open>EINVAL\<close> for a path that ends in
  a \<open>.\<close> element; otherwise the node and everything below it is removed, and a missing
  path is no error. The root directory itself cannot be removed.
\<close>

definition endsWithDot :: "string \<Rightarrow> bool" where
  "endsWithDot path =
     (case rev path of
        [] \<Rightarrow> False
      | [c] \<Rightarrow> c = CHR ''.''
      | c # d # _ \<Rightarrow> c = CHR ''.'' \<and> d = CHR ''/'')"

definition remove_tree :: "fsys \<Rightarrow> path \<Rightarrow> fsys" where
  "remove_tree fs p = fs\<lparr>nodes := filter (\<lambda>(q, n). \<not> prefix p q) (nodes fs)\<rparr>"

definition os_RemoveAll :: "fsys \<Rightarrow> string \<Rightarrow> fsys \<times> error option" where
  "os_RemoveAll fs name =
     (if name = [] then (fs, None)
      else if endsWithDot name then (fs, Some (PathError EINVAL))
      else
        let p = resolve fs name in
        case node_at fs p of
          Inl ENOTDIR \<Rightarrow> (fs, Some (PathError ENOTDIR))
        | _ \<Rightarrow>
            if p = [] then (fs\<lparr>nodes := filter (\<lambda>(q, n). q = []) (nodes fs)\<rparr>,
                            Some (PathError EBUSY))
            else (remove_tree fs p, None))"

definition ioutil_ReadFile :: "fsys \<Rightarrow> string \<Rightarrow> error + string" where
  "ioutil_ReadFile fs name =
     (if name = [] then Inl (PathError ENOENT)
      else case node_at fs (resolve fs name) of
             Inl e \<Rightarrow> Inl (PathError e)
           | Inr Dir \<Rightarrow> Inl (PathError EISDIR)
           | Inr (File b) \<Rightarrow> Inr b)"

text \<open>\<open>ioutil.ReadDir\<close>: the names of the entries of a directory, sorted by name.\<close>

definition entries :: "fsys \<Rightarrow> path \<Rightarrow> string list" where
  "entries fs p = map (\<lambda>(q, n). last q) (filter (\<lambda>(q, n). q \<noteq> [] \<and> butlast q = p) (nodes fs))"

definition ioutil_ReadDir :: "fsys \<Rightarrow> string \<Rightarrow> error + string list" where
  "ioutil_ReadDir fs name =
     (if name = [] then Inl (PathError ENOENT)
      else
        let p = resolve fs name in
        case node_at fs p of
          Inl e \<Rightarrow> Inl (PathError e)
        | Inr (File _) \<Rightarrow> Inl (PathError ENOTDIR)
        | Inr Dir \<Rightarrow> Inr (sort (entries fs p)))"

subsection \<open>The store\<close>

record Driver =
  dir :: string

text \<open>\<open>New\<close> (main.go, lines 36 to 62).\<close>

definition New :: "fsys \<Rightarrow> string \<Rightarrow> fsys \<times> Driver \<times> error option" where
  "New fs dir0 =
     (let dir1 = filepath_Clean dir0;
          driver = \<lparr>dir = dir1\<rparr>
      in case os_Stat fs dir1 of
           Inr _ \<Rightarrow> (fs, driver, None)
         | Inl _ \<Rightarrow> (case os_MkdirAll fs dir1 of (fs', err) \<Rightarrow> (fs', driver, err)))"

text \<open>\<open>Driver.Write\<close> (lines 64 to 96); \<open>enc\<close> is \<open>json.Marshal\<close>.\<close>

definition Write ::
  "('v \<Rightarrow> string option) \<Rightarrow> Driver \<Rightarrow> fsys \<Rightarrow> string \<Rightarrow> string \<Rightarrow> 'v \<Rightarrow> fsys \<times> error option"
where
  "Write enc d fs collection resourse v =
     (if collection = [] then (fs, Some (Errorf ''collection is required''))
      else if resourse = [] then (fs, Some (Errorf ''resourse is required''))
      else
        let dir1 = filepath_Join [dir d, collection];
            fnlPath = filepath_Join [dir1, resourse @ ''.json''];
            tmpPath = fnlPath @ ''.tmp''
        in case os_MkdirAll fs dir1 of
             (fs1, Some err) \<Rightarrow> (fs1, Some err)
           | (fs1, None) \<Rightarrow>
              (case enc v of
                 None \<Rightarrow> (fs1, Some MarshalError)
               | Some b0 \<Rightarrow>
                  (let b = b0 @ [CHR 0x0A] in
                   case ioutil_WriteFile fs1 tmpPath b of
                     (fs2, Some err) \<Rightarrow> (fs2, Some err)
                   | (fs2, None) \<Rightarrow> os_Rename fs2 tmpPath fnlPath)))"

text \<open>
  \<open>Driver.Read\<close> (lines 98 to 120); \<open>dec\<close> is \<open>json.Unmarshal\<close> into the caller's
  variable, and the value it stores there is the result.
\<close>

definition Read ::
  "(string \<Rightarrow> 'v option) \<Rightarrow> Driver \<Rightarrow> fsys \<Rightarrow> string \<Rightarrow> string \<Rightarrow> error + 'v"
where
  "Read dec d fs collection resource =
     (if collection = [] then Inl (Errorf ''collection is required'')
      else if resource = [] then Inl (Errorf ''resource is required'')
      else
        let record = filepath_Join [dir d, collection, resource] in
        case os_Stat fs record of
          Inl err \<Rightarrow>
            if os_IsNotExist err then Inl err
            else (case ioutil_ReadFile fs (record @ ''.json'') of
                    Inl err' \<Rightarrow> Inl err'
                  | Inr b \<Rightarrow> (case dec b of None \<Rightarrow> Inl UnmarshalError | Some v \<Rightarrow> Inr v))
        | Inr _ \<Rightarrow>
            (case ioutil_ReadFile fs (record @ ''.json'') of
               Inl err' \<Rightarrow> Inl err'
             | Inr b \<Rightarrow> (case dec b of None \<Rightarrow> Inl UnmarshalError | Some v \<Rightarrow> Inr v)))"

text \<open>\<open>stat\<close> (lines 168 to 173).\<close>

definition stat :: "fsys \<Rightarrow> string \<Rightarrow> error + FileMode" where
  "stat fs path =
     (case os_Stat fs path of
        Inl err \<Rightarrow> if os_IsNotExist err then os_Stat fs (path @ ''.json'') else Inl err
      | Inr f \<Rightarrow> Inr f)"

text \<open>\<open>Driver.ReadAll\<close> (lines 122 to 149); \<open>read_files\<close> is its loop over the entries.\<close>

fun read_files :: "fsys \<Rightarrow> string \<Rightarrow> string list \<Rightarrow> string list \<Rightarrow> error + string list" where
  "read_files fs dir1 [] records = Inr records"
| "read_files fs dir1 (name # files) records =
     (case ioutil_ReadFile fs (filepath_Join [dir1, name]) of
        Inl err \<Rightarrow> Inl err
      | Inr b \<Rightarrow> read_files fs dir1 files (records @ [b]))"

definition ReadAll :: "Driver \<Rightarrow> fsys \<Rightarrow> string \<Rightarrow> error + string list" where
  "ReadAll d fs collection =
     (if collection = [] then Inl (Errorf ''collection is required'')
      else
        let dir1 = filepath_Join [dir d, collection] in
        case stat fs dir1 of
          Inl err \<Rightarrow> Inl err
        | Inr _ \<Rightarrow>
           (case ioutil_ReadDir fs dir1 of
              Inl err \<Rightarrow> Inl err
            | Inr files \<Rightarrow> read_files fs dir1 files []))"

text \<open>\<open>Driver.Delete\<close> (lines 151 to 166).\<close>

definition Delete :: "Driver \<Rightarrow> fsys \<Rightarrow> string \<Rightarrow> string \<Rightarrow> fsys \<times> error option" where
  "Delete d fs collection resource =
     (let path = filepath_Join [dir d, collection, resource] in
      case stat fs path of
        Inl err \<Rightarrow> (fs, Some (Errorf (path @ '' does not exist'')))
      | Inr ModeDir \<Rightarrow> os_RemoveAll fs path
      | Inr ModeRegular \<Rightarrow> os_RemoveAll fs (path @ ''.json''))"

subsection \<open>Names, well-formed file systems, sample data\<close>

text \<open>
  A path element: a name that \<open>filepath.Clean\<close> and the kernel take as it is, that is,
  a non-empty string without separator other than \<open>.\<close> and \<open>..\<close>. Collections and
  resources are meant to be such names.
\<close>

definition path_element :: "string \<Rightarrow> bool" where
  "path_element x = (x \<noteq> [] \<and> CHR ''/'' \<notin> set x \<and> x \<noteq> ''.'' \<and> x \<noteq> ''..'')"

text \<open>
  The invariant of the loop of \<open>filepath.Clean\<close>: the output is a run of \<open>..\<close> of length
  \<open>dotdot\<close> (empty for a rooted path), followed by path elements.
\<close>

definition clean_inv :: "bool \<Rightarrow> string list \<times> nat \<Rightarrow> bool" where
  "clean_inv rt st = (case st of (out, dotdot) \<Rightarrow>
     dotdot \<le> length out \<and> (rt \<longrightarrow> dotdot = 0) \<and>
     (\<forall>e \<in> set (take dotdot out). e = ''..'') \<and>
     (\<forall>e \<in> set (drop dotdot out). path_element e))"

text \<open>
  A well-formed file system: no path is listed twice, the root and the working
  directory are directories, every path is made of path elements, and the parent of
  every node is a directory.
\<close>

definition wf_fs :: "fsys \<Rightarrow> bool" where
  "wf_fs fs =
     (distinct (map fst (nodes fs)) \<and>
      lookup fs [] = Some Dir \<and>
      lookup fs (cwd fs) = Some Dir \<and>
      list_all (\<lambda>(p, n). list_all path_element p \<and>
                           (p \<noteq> [] \<longrightarrow> lookup fs (butlast p) = Some Dir)) (nodes fs))"

text \<open>
  The loop of \<open>main\<close> (lines 220 to 233) that writes one record after the other into a
  collection; \<open>main\<close> drops the errors, here they are returned in order.
\<close>

fun write_all ::
  "('v \<Rightarrow> string option) \<Rightarrow> Driver \<Rightarrow> fsys \<Rightarrow> string \<Rightarrow> (string \<times> 'v) list
   \<Rightarrow> fsys \<times> error option list"
where
  "write_all enc d fs collection [] = (fs, [])"
| "write_all enc d fs collection ((resource, v) # rest) =
     (case Write enc d fs collection resource v of
        (fs1, err) \<Rightarrow>
          (case write_all enc d fs1 collection rest of
             (fs2, errs) \<Rightarrow> (fs2, err # errs)))"

text \<open>The contents of the regular file at a path (empty where there is none).\<close>

definition file_contents :: "fsys \<Rightarrow> path \<Rightarrow> string" where
  "file_contents fs p = (case lookup fs p of Some (File b) \<Rightarrow> b | _ \<Rightarrow> [])"

text \<open>
  A small codec to run the operations on: a text is encoded as a JSON string literal
  (texts without quotes or escapes), and \<open>Chan\<close> stands for a Go value that
  \<open>json.Marshal\<close> refuses, such as a channel. Decoding accepts one newline after the
  literal.
\<close>

datatype sample_value = Text string | Chan

definition sample_Marshal :: "sample_value \<Rightarrow> string option" where
  "sample_Marshal v = (case v of Text s \<Rightarrow> Some ([CHR 0x22] @ s @ [CHR 0x22]) | Chan \<Rightarrow> None)"

definition sample_Unmarshal :: "string \<Rightarrow> sample_value option" where
  "sample_Unmarshal b =
     (let t = (if b \<noteq> [] \<and> last b = CHR 0x0A then butlast b else b)
      in case t of
           [] \<Rightarrow> None
         | q # s \<Rightarrow>
             if q = CHR 0x22 \<and> s \<noteq> [] \<and> last s = CHR 0x22 then Some (Text (butlast s))
             else None)"

text \<open>
  Sample states, for a process in the directory \<open>/srv\<close> that opens the store \<open>./db\<close> as
  \<open>main\<close> does: before the store exists, after \<open>New\<close>, with an empty collection \<open>user\<close>,
  and after \<open>Write("user", "John", "John")\<close>.
\<close>

definition fs_start :: fsys where
  "fs_start = \<lparr>cwd = [''srv''], nodes = [([], Dir), ([''srv''], Dir)]\<rparr>"

definition db :: Driver where
  "db = \<lparr>dir = ''db''\<rparr>"

definition fs_db :: fsys where
  "fs_db = \<lparr>cwd = [''srv''],
     nodes = [([], Dir), ([''srv''], Dir), ([''srv'', ''db''], Dir)]\<rparr>"


definition john_json :: string where
  "john_json = [CHR 0x22] @ ''John'' @ [CHR 0x22, CHR 0x0A]"

definition fs_john :: fsys where
  "fs_john = \<lparr>cwd = [''srv''],
     nodes = [([], Dir), ([''srv''], Dir), ([''srv'', ''db''], Dir),
              ([''srv'', ''db'', ''user''], Dir),
              ([''srv'', ''db'', ''user'', ''John.json''], File john_json)]\<rparr>"

text \<open>The state after a further \<open>Write("user", "John.json", "Paul")\<close>.\<close>

definition fs_john2 :: fsys where
  "fs_john2 = \<lparr>cwd = [''srv''],
     nodes = [([], Dir), ([''srv''], Dir), ([''srv'', ''db''], Dir),
              ([''srv'', ''db'', ''user''], Dir),
              ([''srv'', ''db'', ''user'', ''John.json''], File john_json),
              ([''srv'', ''db'', ''user'', ''John.json.json''],
               File ([CHR 0x22] @ ''Paul'' @ [CHR 0x22, CHR 0x0A]))]\<rparr>"

text \<open>Two of the records that \<open>main\<close> writes.\<close>

definition two_users :: "(string \<times> sample_value) list" where
  "two_users = [(''Paul'', Text ''Paul''), (''John'', Text ''John'')]"

section \<open>Properties\<close>

subsection \<open>Path strings\<close>

lemma split_slash_not_Nil: "split_slash s \<noteq> []"
  by (induction s) (auto split: list.splits)

lemma split_slash_no_slash: "CHR ''/'' \<notin> set x \<Longrightarrow> split_slash x = [x]"
  by (induction x) auto

lemma split_slash_append:
  "split_slash (a @ CHR ''/'' # b) = split_slash a @ split_slash b"
  by (induction a) (auto split: list.splits simp: split_slash_not_Nil)

lemma split_slash_elems: "e \<in> set (split_slash s) \<Longrightarrow> CHR ''/'' \<notin> set e"
  by (induction s arbitrary: e) (auto split: list.splits if_splits)

lemma split_join_slash:
  "out \<noteq> [] \<Longrightarrow> \<forall>e\<in>set out. CHR ''/'' \<notin> set e \<Longrightarrow> split_slash (join_slash out) = out"
proof (induction out rule: join_slash.induct)
  case 1
  then show ?case by simp
next
  case (2 x)
  then show ?case by (simp add: split_slash_no_slash)
next
  case (3 x y ys)
  then show ?case by (simp add: split_slash_append split_slash_no_slash)
qed

lemma join_slash_snoc:
  "join_slash (out @ [x]) = (if out = [] then x else join_slash out @ ''/'' @ x)"
  by (induction out rule: join_slash.induct) auto

lemma rooted_append: "a \<noteq> [] \<Longrightarrow> rooted (a @ b) = rooted a"
  by (cases a) (auto simp: rooted_def)

lemma path_element_ext:
  "path_element x \<Longrightarrow> CHR ''/'' \<notin> set e \<Longrightarrow> path_element (x @ e)"
  by (cases x; cases "tl x") (auto simp: path_element_def)

lemma foldl_clean_snoc:
  "path_element x \<Longrightarrow>
   fst (foldl (clean_elem rt) st (xs @ [x])) = fst (foldl (clean_elem rt) st xs) @ [x]"
  by (cases "foldl (clean_elem rt) st xs") (auto simp: path_element_def)

lemma Clean_element: "path_element x \<Longrightarrow> filepath_Clean x = x"
  by (cases x) (auto simp: filepath_Clean_def path_element_def rooted_def split_slash_no_slash)

lemma Clean_snoc:
  assumes "a \<noteq> []" "path_element x"
  shows "filepath_Clean (a @ ''/'' @ x) =
         (if rooted a then ''/'' else []) @
         join_slash (fst (foldl (clean_elem (rooted a)) ([], 0) (split_slash a)) @ [x])"
proof -
  have x: "x \<noteq> []" "CHR ''/'' \<notin> set x"
    using assms(2) by (auto simp: path_element_def)
  have r: "rooted (a @ CHR ''/'' # x) = rooted a"
    using assms(1) by (rule rooted_append)
  have s: "split_slash (a @ CHR ''/'' # x) = split_slash a @ [x]"
    using x by (simp add: split_slash_append split_slash_no_slash)
  have j: "join_slash (out @ [x]) \<noteq> []" for out
    using x by (simp add: join_slash_snoc)
  show ?thesis
    using assms j
    by (simp add: filepath_Clean_def Let_def r s foldl_clean_snoc del: foldl_append)
qed

lemma Clean_snoc_ext:
  assumes "a \<noteq> []" "path_element x" "CHR ''/'' \<notin> set e"
  shows "filepath_Clean (a @ ''/'' @ x) @ e = filepath_Clean (a @ ''/'' @ x @ e)"
  using assms Clean_snoc [of a x] Clean_snoc [of a "x @ e"] path_element_ext [of x e]
  by (simp add: join_slash_snoc)

lemma Clean_trailing_slash:
  assumes "a \<noteq> []"
  shows "filepath_Clean (a @ ''/'') = filepath_Clean a"
proof -
  have "split_slash (a @ ''/'') = split_slash a @ [[]]"
    by (simp add: split_slash_append)
  moreover have "rooted (a @ ''/'') = rooted a"
    using assms by (rule rooted_append)
  ultimately show ?thesis
    using assms by (cases "foldl (clean_elem (rooted a)) ([], 0) (split_slash a)")
      (simp add: filepath_Clean_def Let_def)
qed

lemma Join_two:
  "path_element x \<Longrightarrow>
   filepath_Join [a, x] = (if a = [] then x else filepath_Clean (a @ ''/'' @ x))"
  by (auto simp: filepath_Join_def Clean_element path_element_def)

lemma Join_three:
  "path_element c \<Longrightarrow> path_element r \<Longrightarrow>
   filepath_Join [a, c, r] =
     filepath_Clean ((if a = [] then c else a @ ''/'' @ c) @ ''/'' @ r)"
  by (auto simp: filepath_Join_def path_element_def)

lemma Join_three_empty:
  "path_element c \<Longrightarrow> filepath_Join [a, c, []] = filepath_Join [a, c]"
  using Clean_trailing_slash [of c] Clean_trailing_slash [of "a @ ''/'' @ c"]
  by (auto simp: filepath_Join_def path_element_def)

lemma Join_two_ext:
  "path_element x \<Longrightarrow> CHR ''/'' \<notin> set e \<Longrightarrow>
   filepath_Join [a, x] @ e = filepath_Join [a, x @ e]"
  using Clean_snoc_ext [of a x e] path_element_ext [of x e]
  by (simp add: Join_two)

lemma Join_three_ext:
  "path_element c \<Longrightarrow> path_element r \<Longrightarrow> CHR ''/'' \<notin> set e \<Longrightarrow>
   filepath_Join [a, c, r] @ e = filepath_Join [a, c, r @ e]"
  using Clean_snoc_ext [of "if a = [] then c else a @ ''/'' @ c" r e] path_element_ext [of r e]
  by (simp add: Join_three path_element_def)

lemma resolve_snoc:
  assumes "a \<noteq> []" "path_element x"
  shows "resolve fs (a @ ''/'' @ x) = resolve fs a @ [x]"
proof -
  have "rooted (a @ CHR ''/'' # x) = rooted a"
    using assms(1) by (rule rooted_append)
  moreover have "split_slash (a @ CHR ''/'' # x) = split_slash a @ [x]"
    using assms(2) by (simp add: split_slash_append split_slash_no_slash path_element_def)
  ultimately show ?thesis
    using assms(2) by (simp add: resolve_def walk_def path_element_def)
qed

lemma resolve_element: "path_element x \<Longrightarrow> resolve fs x = cwd fs @ [x]"
  by (cases x) (auto simp: resolve_def walk_def rooted_def split_slash_no_slash path_element_def)

lemma resolve_Nil: "resolve fs [] = cwd fs"
  by (simp add: resolve_def walk_def rooted_def)

lemma clean_elem_inv:
  assumes "clean_inv rt st" "CHR ''/'' \<notin> set e"
  shows "clean_inv rt (clean_elem rt st e)"
proof (cases st)
  case (Pair out dotdot)
  show ?thesis
  proof (cases "e = [] \<or> e = ''.''")
    case True
    then show ?thesis using assms Pair by auto
  next
    case False
    show ?thesis
    proof (cases "e = ''..''")
      case True
      then show ?thesis
        using assms Pair
        by (auto simp: clean_inv_def butlast_conv_take dest: in_set_takeD in_set_dropD
            simp: drop_take in_set_conv_nth nth_append)
    next
      case False
      with \<open>\<not> (e = [] \<or> e = ''.'')\<close> have "path_element e"
        using assms(2) by (simp add: path_element_def)
      then show ?thesis
        using assms Pair False \<open>\<not> (e = [] \<or> e = ''.'')\<close>
        by (auto simp: clean_inv_def)
    qed
  qed
qed

lemma walk_clean_elem:
  assumes "clean_inv rt (out, dotdot)" "rt \<longrightarrow> start = []"
  shows "foldl walk start (fst (clean_elem rt (out, dotdot) e)) = walk (foldl walk start out) e"
proof (cases "e = ''..''")
  case False
  then show ?thesis by (auto simp: walk_def)
next
  case True
  show ?thesis
  proof (cases "length out > dotdot")
    case long: True
    then have "out \<noteq> []" by auto
    then have o: "out = butlast out @ [last out]" by simp
    have "last out \<in> set (drop dotdot out)"
      using long \<open>out \<noteq> []\<close> by (metis drop_eq_Nil last_drop last_in_set not_le)
    then have "path_element (last out)"
      using assms(1) by (simp add: clean_inv_def)
    then have "foldl walk start (butlast out @ [last out]) = foldl walk start (butlast out) @ [last out]"
      by (simp add: path_element_def walk_def)
    then have "butlast (foldl walk start out) = foldl walk start (butlast out)"
      using o by simp
    then show ?thesis using True long by (simp add: walk_def)
  next
    case False
    then have "rt \<Longrightarrow> out = []" using assms(1) by (auto simp: clean_inv_def)
    then show ?thesis using True False assms(2) by (auto simp: walk_def)
  qed
qed

lemma walk_foldl_clean:
  assumes "clean_inv rt st" "rt \<longrightarrow> start = []" "\<forall>e \<in> set xs. CHR ''/'' \<notin> set e"
  shows "foldl walk start (fst (foldl (clean_elem rt) st xs)) = foldl walk (foldl walk start (fst st)) xs
         \<and> clean_inv rt (foldl (clean_elem rt) st xs)"
  using assms
proof (induction xs arbitrary: st rule: rev_induct)
  case Nil
  then show ?case by simp
next
  case (snoc x xs)
  let ?st = "foldl (clean_elem rt) st xs"
  have ih: "foldl walk start (fst ?st) = foldl walk (foldl walk start (fst st)) xs" "clean_inv rt ?st"
    using snoc by auto
  obtain out dotdot where st: "?st = (out, dotdot)" by (cases ?st)
  have "foldl walk start (fst (clean_elem rt (out, dotdot) x)) = walk (foldl walk start out) x"
    using ih(2) snoc.prems(2) unfolding st by (rule walk_clean_elem)
  moreover have "clean_inv rt (clean_elem rt ?st x)"
    using ih(2) snoc.prems(3) by (intro clean_elem_inv) auto
  ultimately show ?case using ih(1) st by simp
qed

lemma clean_inv_elems:
  assumes "clean_inv rt (out, dotdot)" "e \<in> set out"
  shows "e \<noteq> [] \<and> CHR ''/'' \<notin> set e"
proof -
  have "e \<in> set (take dotdot out) \<or> e \<in> set (drop dotdot out)"
    using assms(2) by (metis Un_iff append_take_drop_id set_append)
  then show ?thesis
    using assms(1) by (auto simp: clean_inv_def path_element_def)
qed

lemma join_slash_first:
  assumes "out \<noteq> []" "\<forall>e \<in> set out. e \<noteq> [] \<and> CHR ''/'' \<notin> set e"
  shows "join_slash out \<noteq> [] \<and> \<not> rooted (join_slash out)"
proof -
  obtain x xs where out: "out = x # xs" using assms(1) by (cases out) auto
  then obtain c cs where x: "x = c # cs" "c \<noteq> CHR ''/''"
    using assms(2) by (cases x) auto
  show ?thesis
    unfolding out using x by (cases xs) (auto simp: rooted_def)
qed

lemma resolve_Clean:
  assumes "s \<noteq> []"
  shows "resolve fs (filepath_Clean s) = resolve fs s"
proof -
  define rt where "rt = rooted s"
  define start where "start = (if rt then [] else cwd fs)"
  define st where "st = foldl (clean_elem rt) ([], 0) (split_slash s)"
  obtain out dotdot where st': "st = (out, dotdot)" by (cases st)
  have inv0: "clean_inv rt ([], 0)" by (simp add: clean_inv_def)
  have w: "foldl walk start (fst st) = foldl walk start (split_slash s)" "clean_inv rt st"
    using walk_foldl_clean [OF inv0, of start "split_slash s"] split_slash_elems
    by (auto simp: st_def start_def)
  have el: "\<forall>e \<in> set out. e \<noteq> [] \<and> CHR ''/'' \<notin> set e"
    using w(2) clean_inv_elems unfolding st' by blast
  have fo: "fst (foldl (clean_elem (rooted s)) ([], 0) (split_slash s)) = out"
    using st' by (simp add: st_def rt_def)
  have c0: "filepath_Clean s =
      (if (if rt then ''/'' else []) @ join_slash out = [] then ''.''
       else (if rt then ''/'' else []) @ join_slash out)"
    using assms unfolding filepath_Clean_def Let_def rt_def fo by simp
  have r: "resolve fs s = foldl walk start out"
    using w(1) by (simp add: resolve_def start_def rt_def st')
  show ?thesis
  proof (cases "out = []")
    case True
    then have "filepath_Clean s = (if rt then ''/'' else ''.'')"
      using c0 by simp
    then show ?thesis
      using True r by (auto simp: resolve_def walk_def rooted_def start_def)
  next
    case False
    have j: "join_slash out \<noteq> []" "\<not> rooted (join_slash out)"
      using join_slash_first [OF False el] by auto
    have sp: "split_slash (join_slash out) = out"
      using False el by (simp add: split_join_slash)
    have c: "filepath_Clean s = (if rt then ''/'' else []) @ join_slash out"
      using c0 j by simp
    show ?thesis
    proof (cases rt)
      case True
      then have "resolve fs (filepath_Clean s) = foldl walk [] ([] # out)"
        using c sp by (simp add: resolve_def rooted_def)
      then show ?thesis using r True by (simp add: start_def walk_def)
    next
      case False
      then have "resolve fs (filepath_Clean s) = foldl walk (cwd fs) out"
        using c sp j by (simp add: resolve_def)
      then show ?thesis using r False by (simp add: start_def)
    qed
  qed
qed

lemma resolve_Join_two:
  assumes "path_element x"
  shows "resolve fs (filepath_Join [a, x]) = resolve fs a @ [x]"
proof (cases "a = []")
  case True
  then show ?thesis
    using assms by (simp add: Join_two resolve_element resolve_Nil)
next
  case False
  then show ?thesis
    using assms by (simp add: Join_two resolve_Clean resolve_snoc del: append.simps)
qed

lemma resolve_Join_three:
  assumes "path_element c" "path_element r"
  shows "resolve fs (filepath_Join [a, c, r]) = resolve fs a @ [c, r]"
proof -
  let ?a = "if a = [] then c else a @ ''/'' @ c"
  have ne: "?a \<noteq> []" using assms(1) by (auto simp: path_element_def)
  have "resolve fs ?a = resolve fs a @ [c]"
    using assms(1) by (auto simp: resolve_element resolve_Nil resolve_snoc simp del: append.simps)
  moreover have "resolve fs (filepath_Join [a, c, r]) = resolve fs ?a @ [r]"
    using assms ne resolve_snoc [OF ne assms(2)]
    by (simp add: Join_three resolve_Clean del: append.simps)
  ultimately show ?thesis by simp
qed

lemma Join_two_not_Nil: "path_element x \<Longrightarrow> filepath_Join [a, x] \<noteq> []"
  using Clean_snoc [of a x]
  by (auto simp: Join_two join_slash_snoc path_element_def)

subsection \<open>Well-formed file systems and the system calls\<close>

lemma wf_parent:
  "wf_fs fs \<Longrightarrow> lookup fs (p @ [x]) = Some n \<Longrightarrow> lookup fs p = Some Dir"
  by (auto simp: wf_fs_def lookup_def list_all_iff dest!: map_of_SomeD)

lemma wf_elements:
  "wf_fs fs \<Longrightarrow> lookup fs p = Some n \<Longrightarrow> list_all path_element p"
  by (auto simp: wf_fs_def lookup_def list_all_iff dest!: map_of_SomeD)

lemma wf_ancestor:
  "wf_fs fs \<Longrightarrow> lookup fs q = Some n \<Longrightarrow> prefix p q \<Longrightarrow> p \<noteq> q \<Longrightarrow> lookup fs p = Some Dir"
proof (induction q arbitrary: n rule: rev_induct)
  case Nil
  then show ?case by simp
next
  case (snoc x q)
  have par: "lookup fs q = Some Dir"
    using snoc.prems(1,2) by (rule wf_parent)
  have "prefix p q"
    using snoc.prems(3,4) by (auto simp: prefix_snoc)
  then show ?case
    using par snoc.IH [OF snoc.prems(1) par] by (cases "p = q") auto
qed

lemma wf_missing_below:
  assumes "wf_fs fs" "lookup fs p = None" "prefix p q"
  shows "lookup fs q = None"
proof (cases "lookup fs q")
  case None
  then show ?thesis .
next
  case (Some n)
  then have "p \<noteq> q" using assms(2) by auto
  then have "lookup fs p = Some Dir"
    using assms(1,3) Some by (intro wf_ancestor)
  then show ?thesis using assms(2) by simp
qed

lemma wf_no_file_above:
  assumes "wf_fs fs" "lookup fs p = Some Dir"
  shows "\<not> list_ex (is_file fs) (prefixes p)"
proof -
  have "lookup fs q = Some Dir" if "prefix q p" for q
    using assms that wf_ancestor [of fs p Dir q] by (cases "q = p") auto
  then show ?thesis
    by (auto simp: list_ex_iff is_file_def)
qed

lemma node_at_Some: "lookup fs p = Some n \<Longrightarrow> node_at fs p = Inr n"
  by (simp add: node_at_def)

lemma node_at_child:
  assumes "wf_fs fs" "lookup fs p = Some Dir" "lookup fs (p @ [x]) = None"
  shows "node_at fs (p @ [x]) = Inl ENOENT"
  using wf_no_file_above [OF assms(1,2)] assms(3)
  by (auto simp: node_at_def list_ex_iff is_file_def)

lemma lookup_put: "lookup (put fs p n) q = (if q = p then Some n else lookup fs q)"
  by (simp add: lookup_def put_def update_conv')

lemma cwd_put: "cwd (put fs p n) = cwd fs"
  by (simp add: put_def)

lemma walk_elements:
  "list_all path_element p \<Longrightarrow> CHR ''/'' \<notin> set e \<Longrightarrow> list_all path_element (walk p e)"
  by (auto simp: walk_def path_element_def list_all_iff dest: in_set_butlastD)

lemma resolve_elements:
  assumes "list_all path_element (cwd fs)"
  shows "list_all path_element (resolve fs s)"
proof -
  have "list_all path_element (foldl walk p xs)"
    if "list_all path_element p" "\<forall>e \<in> set xs. CHR ''/'' \<notin> set e" for p xs
    using that by (induction xs arbitrary: p) (auto simp: walk_elements)
  then show ?thesis
    using assms split_slash_elems by (auto simp: resolve_def)
qed

lemma map_of_const_Dir:
  "map_of (map (\<lambda>q. (q, Dir)) qs) q = (if q \<in> set qs then Some Dir else None)"
  by (induction qs) auto

lemma MkdirAll_err: "os_MkdirAll fs name = (fs', Some e) \<Longrightarrow> fs' = fs"
  by (auto simp: os_MkdirAll_def Let_def split: if_splits)

lemma MkdirAll_ok:
  assumes "os_MkdirAll fs name = (fs', None)"
  shows "cwd fs' = cwd fs"
    and "lookup fs' q = (case lookup fs q of
                           Some n \<Rightarrow> Some n
                         | None \<Rightarrow> if prefix q (resolve fs name) then Some Dir else None)"
    and "\<not> list_ex (is_file fs) (prefixes (resolve fs name))"
    and "name \<noteq> []"
  using assms
  by (auto simp: os_MkdirAll_def Let_def lookup_def map_add_def map_of_const_Dir
      split: if_splits option.splits)

lemma MkdirAll_target:
  assumes "os_MkdirAll fs name = (fs', None)"
  shows "lookup fs' (resolve fs name) = Some Dir"
proof -
  have "\<not> is_file fs (resolve fs name)"
    using MkdirAll_ok(3) [OF assms] by (auto simp: list_ex_iff)
  then show ?thesis
    using MkdirAll_ok(2) [OF assms, of "resolve fs name"]
    by (cases "lookup fs (resolve fs name)") (auto simp: is_file_def split: node.splits)
qed

lemma MkdirAll_wf:
  assumes "wf_fs fs" "os_MkdirAll fs name = (fs', None)"
  shows "wf_fs fs'"
proof -
  let ?p = "resolve fs name"
  let ?new = "filter (\<lambda>q. lookup fs q = None) (prefixes ?p)"
  have n: "nodes fs' = nodes fs @ map (\<lambda>q. (q, Dir)) ?new"
    using assms(2) by (auto simp: os_MkdirAll_def Let_def split: if_splits)
  have lk: "lookup fs' q = (case lookup fs q of Some n \<Rightarrow> Some n
            | None \<Rightarrow> if prefix q ?p then Some Dir else None)" for q
    using MkdirAll_ok(2) [OF assms(2)] .
  have nofile: "\<not> is_file fs q" if "prefix q ?p" for q
    using MkdirAll_ok(3) [OF assms(2)] that by (auto simp: list_ex_iff)
  have keep: "lookup fs' q = Some n" if "lookup fs q = Some n" for q n
    using that by (simp add: lk)
  have "list_all path_element (cwd fs)"
    using assms(1) wf_elements [of fs "cwd fs"] by (auto simp: wf_fs_def)
  then have el: "list_all path_element ?p"
    by (rule resolve_elements)
  have pre: "lookup fs' q = Some Dir" if "prefix q ?p" for q
    using nofile [OF that] that
    by (cases "lookup fs q") (auto simp: lk is_file_def split: node.splits)
  have d: "distinct (map fst (nodes fs'))"
  proof -
    have "distinct (map fst (nodes fs))" using assms(1) by (simp add: wf_fs_def)
    moreover have "distinct ?new" by (simp add: distinct_prefixes)
    moreover have "set (map fst (nodes fs)) \<inter> set ?new = {}"
      by (auto simp: lookup_def map_of_eq_None_iff)
    ultimately show ?thesis by (simp add: n comp_def)
  qed
  have old: "list_all path_element q \<and> (q \<noteq> [] \<longrightarrow> lookup fs' (butlast q) = Some Dir)"
    if "(q, m) \<in> set (nodes fs)" for q m
    using assms(1) that keep by (auto simp: wf_fs_def list_all_iff)
  have new: "list_all path_element q \<and> (q \<noteq> [] \<longrightarrow> lookup fs' (butlast q) = Some Dir)"
    if "q \<in> set ?new" for q
  proof -
    have q: "prefix q ?p" using that by simp
    then have "prefix (butlast q) ?p"
      by (metis prefix_order.trans prefixeq_butlast)
    moreover have "list_all path_element q"
      using q el by (auto simp: list_all_iff prefix_def)
    ultimately show ?thesis by (simp add: pre)
  qed
  show ?thesis
    unfolding wf_fs_def
    using d keep [of "[]" Dir] keep [of "cwd fs" Dir] assms(1) old new MkdirAll_ok(1) [OF assms(2)]
    by (auto simp: n list_all_iff wf_fs_def)
qed

lemma wf_fs_iff:
  "wf_fs fs \<longleftrightarrow>
     distinct (map fst (nodes fs)) \<and> lookup fs [] = Some Dir \<and> lookup fs (cwd fs) = Some Dir \<and>
     (\<forall>q m. lookup fs q = Some m \<longrightarrow>
        list_all path_element q \<and> (q \<noteq> [] \<longrightarrow> lookup fs (butlast q) = Some Dir))"
  unfolding wf_fs_def lookup_def list_all_iff
  by (auto dest!: map_of_SomeD) (auto dest: map_of_is_SomeI)

lemma map_of_filter_key:
  "map_of (filter (\<lambda>(q, n). P q) xs) q = (if P q then map_of xs q else None)"
  by (induction xs) auto

lemma WriteFile_err: "ioutil_WriteFile fs name b = (fs', Some e) \<Longrightarrow> fs' = fs"
  by (auto simp: ioutil_WriteFile_def Let_def split: if_splits sum.splits node.splits errno.splits)

lemma WriteFile_ok:
  assumes "ioutil_WriteFile fs name b = (fs', None)"
  shows "fs' = put fs (resolve fs name) (File b)"
    and "is_file fs (resolve fs name) \<or>
         lookup fs (resolve fs name) = None \<and> lookup fs (butlast (resolve fs name)) = Some Dir"
    and "name \<noteq> []"
  using assms
  by (auto simp: ioutil_WriteFile_def Let_def is_file_def node_at_def
      split: if_splits sum.splits node.splits errno.splits option.splits)

lemma free_or_file_not_dir:
  assumes "wf_fs fs"
    and "is_file fs p \<or> lookup fs p = None \<and> lookup fs (butlast p) = Some Dir"
  shows "p \<noteq> []" and "p \<noteq> cwd fs" and "lookup fs (butlast q) = Some Dir \<Longrightarrow> butlast q \<noteq> p"
  using assms by (auto simp: wf_fs_def is_file_def split: option.splits node.splits)

lemma put_file_wf:
  assumes "wf_fs fs" "list_all path_element p"
    and "is_file fs p \<or> lookup fs p = None \<and> lookup fs (butlast p) = Some Dir"
  shows "wf_fs (put fs p (File b))"
proof -
  note nd = free_or_file_not_dir [OF assms(1,3)]
  have par: "lookup fs (butlast p) = Some Dir"
    using assms(1,3) nd(1) wf_parent [of fs "butlast p" "last p"]
    by (auto simp: is_file_def split: option.splits node.splits)
  have "distinct (map fst (nodes (put fs p (File b))))"
    using assms(1) by (simp add: wf_fs_def put_def distinct_update)
  moreover have "list_all path_element q \<and>
      (q \<noteq> [] \<longrightarrow> lookup (put fs p (File b)) (butlast q) = Some Dir)"
    if "lookup (put fs p (File b)) q = Some m" for q m
  proof (cases "q = p")
    case True
    then show ?thesis using assms(2) par nd(3) [of p] by (auto simp: lookup_put)
  next
    case False
    then have "lookup fs q = Some m" using that by (simp add: lookup_put)
    then have "list_all path_element q" "q \<noteq> [] \<Longrightarrow> lookup fs (butlast q) = Some Dir"
      using assms(1) by (auto simp: wf_fs_iff)
    then show ?thesis using nd(3) [of q] by (auto simp: lookup_put)
  qed
  ultimately show ?thesis
    using assms(1) nd(1,2) unfolding wf_fs_iff [of "put fs p (File b)"]
    by (auto simp: lookup_put cwd_put wf_fs_def)
qed

lemma Rename_err: "os_Rename fs oldname newname = (fs', Some e) \<Longrightarrow> fs' = fs"
  by (auto simp: os_Rename_def Let_def
      split: if_splits sum.splits node.splits errno.splits)

lemma Rename_file_ok:
  assumes "os_Rename fs oldname newname = (fs', None)"
    and "lookup fs (resolve fs oldname) = Some (File b)"
  shows "fs' = move_file fs (resolve fs oldname) (resolve fs newname) b"
    and "is_file fs (resolve fs newname) \<or>
         lookup fs (resolve fs newname) = None \<and>
         lookup fs (butlast (resolve fs newname)) = Some Dir"
  using assms
  by (auto simp: os_Rename_def Let_def is_file_def node_at_def
      split: if_splits sum.splits node.splits errno.splits option.splits)

lemma lookup_move_file:
  "lookup (move_file fs po pn b) q =
     (if q = pn then Some (File b) else if q = po then None else lookup fs q)"
  by (simp add: move_file_def lookup_def update_conv' delete_conv')

lemma move_file_wf:
  assumes "wf_fs fs" "list_all path_element pn" "lookup fs po = Some (File b)"
    and "is_file fs pn \<or> lookup fs pn = None \<and> lookup fs (butlast pn) = Some Dir"
  shows "wf_fs (move_file fs po pn b)"
proof -
  let ?fs = "move_file fs po pn b"
  note nd = free_or_file_not_dir [OF assms(1,4)]
  have po: "is_file fs po" using assms(3) by (simp add: is_file_def)
  note od = free_or_file_not_dir [OF assms(1), of po, OF disjI1, OF po]
  have par: "lookup fs (butlast pn) = Some Dir"
    using assms(1,4) nd(1) wf_parent [of fs "butlast pn" "last pn"]
    by (auto simp: is_file_def split: option.splits node.splits)
  have "distinct (map fst (nodes ?fs))"
    using assms(1) by (simp add: wf_fs_def move_file_def distinct_update distinct_delete)
  moreover have "list_all path_element q \<and> (q \<noteq> [] \<longrightarrow> lookup ?fs (butlast q) = Some Dir)"
    if "lookup ?fs q = Some m" for q m
  proof (cases "q = pn")
    case True
    then show ?thesis
      using assms(2) par nd(3) [of pn] od(3) [of pn] by (auto simp: lookup_move_file)
  next
    case False
    then have "lookup fs q = Some m" using that by (auto simp: lookup_move_file split: if_splits)
    then have "list_all path_element q" "q \<noteq> [] \<Longrightarrow> lookup fs (butlast q) = Some Dir"
      using assms(1) by (auto simp: wf_fs_iff)
    then show ?thesis using nd(3) [of q] od(3) [of q] by (auto simp: lookup_move_file)
  qed
  moreover have "cwd ?fs = cwd fs" by (simp add: move_file_def)
  ultimately show ?thesis
    using assms(1) nd(1,2) od(1,2) unfolding wf_fs_iff [of ?fs]
    by (auto simp: lookup_move_file wf_fs_def)
qed

lemma resolve_cwd_cong: "cwd fs' = cwd fs \<Longrightarrow> resolve fs' s = resolve fs s"
  by (simp add: resolve_def)

lemma json_element: "r \<noteq> [] \<Longrightarrow> CHR ''/'' \<notin> set r \<Longrightarrow> path_element (r @ ''.json'')"
  by (cases r; cases "tl r") (auto simp: path_element_def)

lemma Write_ok:
  assumes wf: "wf_fs fs" and c: "path_element c" and r: "CHR ''/'' \<notin> set r"
    and ok: "Write enc d fs c r v = (fs', None)"
  defines "P \<equiv> resolve fs (dir d) @ [c]"
  shows "wf_fs fs' \<and> cwd fs' = cwd fs \<and> lookup fs' P = Some Dir \<and>
         (\<exists>b. enc v = Some b \<and>
           (\<forall>q. lookup fs' q =
              (if q = P @ [r @ ''.json''] then Some (File (b @ [CHR 0x0A]))
               else if q = P @ [r @ ''.json.tmp''] then None
               else case lookup fs q of
                      Some n \<Rightarrow> Some n
                    | None \<Rightarrow> if prefix q P then Some Dir else None)))"
proof -
  let ?dir = "filepath_Join [dir d, c]"
  let ?fnl = "filepath_Join [?dir, r @ ''.json'']"
  let ?tmp = "?fnl @ ''.tmp''"
  have ne: "c \<noteq> []" "r \<noteq> []"
    using ok by (auto simp: Write_def split: if_splits)
  have rj: "path_element (r @ ''.json'')"
    using ne(2) r by (rule json_element)
  have rt: "path_element (r @ ''.json.tmp'')"
    using path_element_ext [OF rj, of "''.tmp''"] by simp
  have tmp: "?tmp = filepath_Join [?dir, r @ ''.json.tmp'']"
    using Join_two_ext [OF rj, of "''.tmp''" ?dir] by simp
  obtain fs1 e1 where m: "os_MkdirAll fs ?dir = (fs1, e1)" by (cases "os_MkdirAll fs ?dir")
  have e1: "e1 = None"
    using ok ne m by (cases e1) (auto simp: Write_def Let_def)
  obtain b0 where b0: "enc v = Some b0"
    using ok ne m e1 by (cases "enc v") (auto simp: Write_def Let_def)
  let ?b = "b0 @ [CHR 0x0A]"
  obtain fs2 e2 where w: "ioutil_WriteFile fs1 ?tmp ?b = (fs2, e2)"
    by (cases "ioutil_WriteFile fs1 ?tmp ?b")
  have e2: "e2 = None"
    using ok ne m e1 b0 w by (cases e2) (auto simp: Write_def Let_def)
  have rn: "os_Rename fs2 ?tmp ?fnl = (fs', None)"
    using ok ne m e1 b0 w e2 by (simp add: Write_def Let_def)
  note mk = MkdirAll_ok [OF m [unfolded e1]]
  have wf1: "wf_fs fs1" using wf m e1 by (auto intro: MkdirAll_wf)
  have P: "resolve fs ?dir = P"
    using c by (simp add: P_def resolve_Join_two)
  have Pel: "list_all path_element P"
    using wf1 MkdirAll_target [OF m [unfolded e1]] wf_elements unfolding P by blast
  have res1: "resolve fs1 s = resolve fs s" for s
    using mk(1) by (rule resolve_cwd_cong)
  have F: "resolve fs1 ?fnl = P @ [r @ ''.json'']"
    using rj P by (simp add: res1 resolve_Join_two)
  have T: "resolve fs1 ?tmp = P @ [r @ ''.json.tmp'']"
    using rt P unfolding tmp by (simp add: res1 resolve_Join_two)
  note wr = WriteFile_ok [OF w [unfolded e2], unfolded T]
  have wf2: "wf_fs fs2"
    unfolding wr(1) using wf1 _ wr(2) by (rule put_file_wf) (use Pel rt in simp)
  have res2: "resolve fs2 s = resolve fs s" for s
    using mk(1) by (intro resolve_cwd_cong) (simp add: wr(1) cwd_put)
  have F2: "resolve fs2 ?fnl = P @ [r @ ''.json'']" "resolve fs2 ?tmp = P @ [r @ ''.json.tmp'']"
    using F T unfolding res2 res1 by simp_all
  have T2: "lookup fs2 (resolve fs2 ?tmp) = Some (File ?b)"
    unfolding F2 by (simp add: wr(1) lookup_put)
  note rno = Rename_file_ok [OF rn T2]
  have fs': "fs' = move_file fs2 (P @ [r @ ''.json.tmp'']) (P @ [r @ ''.json'']) ?b"
    using rno(1) by (simp add: F2)
  have "wf_fs fs'"
    unfolding fs'
    using wf2 _ T2 [unfolded F2] rno(2) [unfolded F2]
    by (rule move_file_wf) (use Pel rj in simp)
  moreover have "cwd fs' = cwd fs"
    using mk(1) by (simp add: fs' move_file_def wr(1) cwd_put)
  moreover have "lookup fs' q =
      (if q = P @ [r @ ''.json''] then Some (File ?b)
       else if q = P @ [r @ ''.json.tmp''] then None
       else case lookup fs q of Some n \<Rightarrow> Some n
            | None \<Rightarrow> if prefix q P then Some Dir else None)" for q
    using mk(2) [of q] by (simp add: fs' lookup_move_file wr(1) lookup_put P)
  moreover have "lookup fs' P = Some Dir"
    using MkdirAll_target [OF m [unfolded e1]]
    by (simp add: fs' lookup_move_file wr(1) lookup_put P)
  ultimately show ?thesis using b0 by blast
qed

lemma Stat_Dir:
  "name \<noteq> [] \<Longrightarrow> lookup fs (resolve fs name) = Some Dir \<Longrightarrow> os_Stat fs name = Inr ModeDir"
  by (simp add: os_Stat_def node_at_def mode_of_def)

lemma Stat_Inr:
  "os_Stat fs name = Inr m \<longleftrightarrow>
     name \<noteq> [] \<and> (\<exists>n. lookup fs (resolve fs name) = Some n \<and> mode_of n = m)"
  by (auto simp: os_Stat_def node_at_def split: option.splits)

lemma MkdirAll_Stat:
  assumes "os_MkdirAll fs name = (fs', None)"
  shows "os_Stat fs' name = Inr ModeDir"
proof -
  have "resolve fs' name = resolve fs name"
    using MkdirAll_ok(1) [OF assms] by (rule resolve_cwd_cong)
  then show ?thesis
    using MkdirAll_target [OF assms] MkdirAll_ok(4) [OF assms] by (simp add: Stat_Dir)
qed

lemma MkdirAll_keeps:
  assumes "os_MkdirAll fs name = (fs', e)"
  shows "lookup fs p = Some n \<Longrightarrow> lookup fs' p = Some n"
    and "lookup fs p = None \<Longrightarrow> lookup fs' p = None \<or> lookup fs' p = Some Dir"
proof -
  show "lookup fs p = Some n \<Longrightarrow> lookup fs' p = Some n"
    using assms MkdirAll_err [of fs name fs'] MkdirAll_ok(2) [of fs name fs' p]
    by (cases e) auto
  show "lookup fs p = None \<Longrightarrow> lookup fs' p = None \<or> lookup fs' p = Some Dir"
    using assms MkdirAll_err [of fs name fs'] MkdirAll_ok(2) [of fs name fs' p]
    by (cases e) auto
qed

lemma ReadFile_File:
  "name \<noteq> [] \<Longrightarrow> lookup fs (resolve fs name) = Some (File b) \<Longrightarrow>
   ioutil_ReadFile fs name = Inr b"
  by (simp add: ioutil_ReadFile_def node_at_def)

lemma Rename_names: "os_Rename fs oldname newname = (fs', None) \<Longrightarrow> newname \<noteq> []"
  by (auto simp: os_Rename_def split: if_splits)


lemma Join_two_suffix: "path_element x \<Longrightarrow> \<exists>pre. filepath_Join [a, x] = pre @ x"
  using Clean_snoc [of a x]
  by (cases "a = []") (auto simp: Join_two join_slash_snoc)

lemma endsWithDot_element: "path_element x \<Longrightarrow> \<not> endsWithDot (pre @ x)"
proof -
  assume x: "path_element x"
  then obtain c cs where r: "rev x = c # cs"
    by (cases "rev x") (auto simp: path_element_def)
  then have xx: "x = rev cs @ [c]" by (metis rev.simps(2) rev_rev_ident)
  show ?thesis
  proof (cases cs)
    case Nil
    then show ?thesis using x xx by (cases "rev pre") (auto simp: endsWithDot_def path_element_def)
  next
    case (Cons e es)
    then have "e \<in> set x" using xx by simp
    then have "e \<noteq> CHR ''/''" using x by (auto simp: path_element_def)
    then show ?thesis using xx Cons by (simp add: endsWithDot_def)
  qed
qed

lemma endsWithDot_json: "\<not> endsWithDot (s @ ''.json'')"
  by (simp add: endsWithDot_def)

lemma cwd_remove_tree: "cwd (remove_tree fs p) = cwd fs"
  by (simp add: remove_tree_def)

lemma lookup_remove_tree:
  "lookup (remove_tree fs p) q = (if prefix p q then None else lookup fs q)"
  by (simp add: remove_tree_def lookup_def map_of_filter_key [where P = "\<lambda>q. \<not> prefix p q"])

lemma RemoveAll_ok:
  assumes "name \<noteq> []" "\<not> endsWithDot name" "resolve fs name \<noteq> []"
    and "node_at fs (resolve fs name) \<noteq> Inl ENOTDIR"
  shows "os_RemoveAll fs name = (remove_tree fs (resolve fs name), None)"
  using assms
  by (auto simp: os_RemoveAll_def Let_def split: sum.splits errno.splits)

lemma no_node_below_missing:
  assumes "wf_fs fs" "lookup fs p = None" "(q, n) \<in> set (nodes fs)"
  shows "\<not> prefix p q"
proof
  assume "prefix p q"
  with assms(1,2) have "lookup fs q = None"
    by (rule wf_missing_below)
  moreover from assms(3) have "q \<in> fst ` set (nodes fs)" by force
  ultimately show False
    by (simp add: lookup_def map_of_eq_None_iff)
qed

lemma remove_tree_missing:
  assumes "wf_fs fs" "lookup fs p = None"
  shows "remove_tree fs p = fs"
proof -
  have "\<forall>x \<in> set (nodes fs). case x of (q, n) \<Rightarrow> \<not> prefix p q"
    using no_node_below_missing [OF assms] by auto
  then have "filter (\<lambda>(q, n). \<not> prefix p q) (nodes fs) = nodes fs"
    by (rule filter_True)
  then show ?thesis by (simp add: remove_tree_def)
qed

lemma node_at_sibling:
  assumes "wf_fs fs" "lookup fs (p @ [x]) = Some n"
  shows "node_at fs (p @ [y]) \<noteq> Inl ENOTDIR"
proof (cases "lookup fs (p @ [y])")
  case None
  have "lookup fs p = Some Dir" using assms by (rule wf_parent)
  then show ?thesis using node_at_child [OF assms(1) _ None] by simp
next
  case (Some m)
  then show ?thesis by (simp add: node_at_Some)
qed

lemma node_at_ENOENT:
  assumes "lookup fs p = None" "\<And>q. prefix q p \<Longrightarrow> q \<noteq> p \<Longrightarrow> lookup fs q = Some Dir"
  shows "node_at fs p = Inl ENOENT"
proof -
  have "\<not> is_file fs q" if "prefix q p" for q
    using assms(1) assms(2) [OF that] by (cases "q = p") (auto simp: is_file_def)
  then show ?thesis
    using assms(1) by (auto simp: node_at_def list_ex_iff)
qed

lemma mode_of_Dir: "mode_of n = ModeDir \<longleftrightarrow> n = Dir"
  by (cases n) (auto simp: mode_of_def)


subsection \<open>A sequence of writes, and reading a directory of files\<close>

lemma json_not_tmp: "r @ ''.json'' \<noteq> r' @ ''.json.tmp''"
proof
  assume "r @ ''.json'' = r' @ ''.json.tmp''"
  then have "last (r @ ''.json'') = last (r' @ ''.json.tmp'')" by simp
  then show False by simp
qed

lemma write_all_ok:
  assumes "wf_fs fs" "path_element c" "\<forall>(r, v) \<in> set ws. CHR ''/'' \<notin> set r"
    and "distinct (map fst ws)"
    and "write_all enc d fs c ws = (fs', errs)" "\<forall>e \<in> set errs. e = None"
    and "P = resolve fs (dir d) @ [c]"
  shows "wf_fs fs' \<and> cwd fs' = cwd fs \<and>
         (ws \<noteq> [] \<or> lookup fs P = Some Dir \<longrightarrow> lookup fs' P = Some Dir) \<and>
         (\<forall>(r, v) \<in> set ws. \<exists>b. enc v = Some b \<and>
              lookup fs' (P @ [r @ ''.json'']) = Some (File (b @ [CHR 0x0A]))) \<and>
         (\<forall>x. x \<notin> (\<lambda>(r, v). r @ ''.json'') ` set ws \<longrightarrow>
              lookup fs' (P @ [x]) =
                (if x \<in> (\<lambda>(r, v). r @ ''.json.tmp'') ` set ws then None
                 else lookup fs (P @ [x])))"
  using assms(1,3-7)
proof (induction ws arbitrary: fs fs' errs)
  case Nil
  then show ?case by simp
next
  case (Cons a ws)
  obtain r v where a: "a = (r, v)" by (cases a)
  obtain fs1 e1 where w: "Write enc d fs c r v = (fs1, e1)" by (cases "Write enc d fs c r v")
  obtain fs2 errs2 where wa: "write_all enc d fs1 c ws = (fs2, errs2)"
    by (cases "write_all enc d fs1 c ws")
  have res: "fs' = fs2" "errs = e1 # errs2"
    using Cons.prems(4) w wa by (simp_all add: a)
  have e1: "e1 = None" and errs2: "\<forall>e \<in> set errs2. e = None"
    using Cons.prems(5) res by auto
  have r: "CHR ''/'' \<notin> set r" using Cons.prems(2) a by simp
  from Write_ok [OF Cons.prems(1) assms(2) r w [unfolded e1], folded Cons.prems(6)]
  obtain b where wf1: "wf_fs fs1" and cwd1: "cwd fs1 = cwd fs" and dir1: "lookup fs1 P = Some Dir"
    and b: "enc v = Some b"
    and lk1: "\<And>q. lookup fs1 q =
              (if q = P @ [r @ ''.json''] then Some (File (b @ [CHR 0x0A]))
               else if q = P @ [r @ ''.json.tmp''] then None
               else case lookup fs q of Some n \<Rightarrow> Some n
                    | None \<Rightarrow> if prefix q P then Some Dir else None)"
    by blast
  have P1: "P = resolve fs1 (dir d) @ [c]"
    using resolve_cwd_cong [OF cwd1, of "dir d"] Cons.prems(6) by simp
  have kid1: "lookup fs1 (P @ [x]) =
              (if x = r @ ''.json'' then Some (File (b @ [CHR 0x0A]))
               else if x = r @ ''.json.tmp'' then None else lookup fs (P @ [x]))" for x
    by (simp add: lk1 split: option.splits)
  have ih: "wf_fs fs2 \<and> cwd fs2 = cwd fs1 \<and>
         (ws \<noteq> [] \<or> lookup fs1 P = Some Dir \<longrightarrow> lookup fs2 P = Some Dir) \<and>
         (\<forall>(r, v) \<in> set ws. \<exists>b. enc v = Some b \<and>
              lookup fs2 (P @ [r @ ''.json'']) = Some (File (b @ [CHR 0x0A]))) \<and>
         (\<forall>x. x \<notin> (\<lambda>(r, v). r @ ''.json'') ` set ws \<longrightarrow>
              lookup fs2 (P @ [x]) =
                (if x \<in> (\<lambda>(r, v). r @ ''.json.tmp'') ` set ws then None
                 else lookup fs1 (P @ [x])))"
    using Cons.IH [OF wf1 _ _ wa errs2 P1] Cons.prems(2,3) by simp
  have fresh: "r @ ''.json'' \<notin> (\<lambda>(r, v). r @ ''.json'') ` set ws"
    using Cons.prems(3) a by (auto simp: image_iff)
  have notmp: "r @ ''.json'' \<notin> (\<lambda>(r, v). r @ ''.json.tmp'') ` set ws"
    using json_not_tmp by (auto simp: image_iff)
  have head: "lookup fs2 (P @ [r @ ''.json'']) = Some (File (b @ [CHR 0x0A]))"
    using ih fresh notmp by (simp add: kid1)
  have rest: "lookup fs2 (P @ [x]) =
                (if x \<in> (\<lambda>(r, v). r @ ''.json.tmp'') ` set (a # ws) then None
                 else lookup fs (P @ [x]))"
    if "x \<notin> (\<lambda>(r, v). r @ ''.json'') ` set (a # ws)" for x
  proof -
    have "x \<noteq> r @ ''.json''" "x \<notin> (\<lambda>(r, v). r @ ''.json'') ` set ws"
      using that a by auto
    then show ?thesis
      using ih by (simp add: kid1 a)
  qed
  show ?case
    unfolding res(1)
    using ih cwd1 dir1 head rest b by (auto simp: a)
qed

lemma entries_set: "x \<in> set (entries fs p) \<longleftrightarrow> lookup fs (p @ [x]) \<noteq> None"
proof
  assume "x \<in> set (entries fs p)"
  then obtain q n where "(q, n) \<in> set (nodes fs)" "q \<noteq> []" "butlast q = p" "last q = x"
    by (auto simp: entries_def)
  then have "(p @ [x], n) \<in> set (nodes fs)"
    by (metis append_butlast_last_id)
  then have "p @ [x] \<in> fst ` set (nodes fs)" by force
  then show "lookup fs (p @ [x]) \<noteq> None"
    by (simp add: lookup_def map_of_eq_None_iff)
next
  assume "lookup fs (p @ [x]) \<noteq> None"
  then obtain n where "map_of (nodes fs) (p @ [x]) = Some n"
    by (auto simp: lookup_def)
  then have "(p @ [x], n) \<in> set (nodes fs)" by (rule map_of_SomeD)
  then have "(\<lambda>(q, n). last q) (p @ [x], n) \<in> set (entries fs p)"
    unfolding entries_def set_map by (intro imageI) simp
  then show "x \<in> set (entries fs p)" by simp
qed

lemma entries_distinct:
  assumes "distinct (map fst (nodes fs))"
  shows "distinct (entries fs p)"
proof -
  define ys where "ys = map fst (filter (\<lambda>(q, n). q \<noteq> [] \<and> butlast q = p) (nodes fs))"
  have d: "distinct ys"
    unfolding ys_def using assms by (rule distinct_map_filter)
  have "q \<noteq> [] \<and> butlast q = p" if "q \<in> set ys" for q
    using that by (auto simp: ys_def)
  then have "inj_on last (set ys)"
    by (intro inj_onI) (metis append_butlast_last_id)
  with d have "distinct (map last ys)"
    by (simp add: distinct_map)
  moreover have "map last ys = entries fs p"
    by (simp add: ys_def entries_def comp_def case_prod_unfold)
  ultimately show ?thesis by simp
qed

lemma read_files_ok:
  assumes "wf_fs fs"
    and "\<forall>x \<in> set names. \<exists>b. lookup fs (resolve fs dir1 @ [x]) = Some (File b)"
  shows "read_files fs dir1 names records =
           Inr (records @ map (\<lambda>x. file_contents fs (resolve fs dir1 @ [x])) names)"
  using assms(2)
proof (induction names arbitrary: records)
  case Nil
  then show ?case by simp
next
  case (Cons x names)
  obtain b where b: "lookup fs (resolve fs dir1 @ [x]) = Some (File b)"
    using Cons.prems by auto
  have "list_all path_element (resolve fs dir1 @ [x])"
    using assms(1) b by (rule wf_elements)
  then have x: "path_element x" by simp
  have "ioutil_ReadFile fs (filepath_Join [dir1, x]) = Inr b"
    using x b by (intro ReadFile_File) (simp_all add: Join_two_not_Nil resolve_Join_two)
  moreover have "file_contents fs (resolve fs dir1 @ [x]) = b"
    using b by (simp add: file_contents_def)
  ultimately show ?case
    using Cons.IH [of "records @ [b]"] Cons.prems by simp
qed

lemma ReadAll_files:
  assumes "wf_fs fs" "path_element c"
    and "lookup fs P = Some Dir" "P = resolve fs (dir d) @ [c]"
    and "\<forall>x n. lookup fs (P @ [x]) = Some n \<longrightarrow> (\<exists>b. n = File b)"
  shows "ReadAll d fs c = Inr (map (\<lambda>x. file_contents fs (P @ [x])) (sort (entries fs P)))"
proof -
  let ?dir = "filepath_Join [dir d, c]"
  have ne: "?dir \<noteq> []" using assms(2) by (rule Join_two_not_Nil)
  have P: "resolve fs ?dir = P"
    using assms(2,4) by (simp add: resolve_Join_two)
  have "os_Stat fs ?dir = Inr ModeDir"
    using ne assms(3) by (intro Stat_Dir) (simp_all add: P)
  then have st: "stat fs ?dir = Inr ModeDir"
    by (simp add: stat_def)
  have rd: "ioutil_ReadDir fs ?dir = Inr (sort (entries fs P))"
    using ne assms(3) by (simp add: ioutil_ReadDir_def P node_at_Some)
  have "\<forall>x \<in> set (sort (entries fs P)). \<exists>b. lookup fs (resolve fs ?dir @ [x]) = Some (File b)"
    unfolding P using assms(5) by (auto simp: entries_set)
  with assms(1) have "read_files fs ?dir (sort (entries fs P)) [] =
      Inr ([] @ map (\<lambda>x. file_contents fs (resolve fs ?dir @ [x])) (sort (entries fs P)))"
    by (rule read_files_ok)
  then show ?thesis
    using assms(2) st rd by (simp add: ReadAll_def P path_element_def)
qed



subsection \<open>Opening the store\<close>

text \<open>
  Claim C9. Opening the store a second time on the same root path does not fail and
  discards nothing: when the cleaned root path exists, \<open>New\<close> returns the driver without
  an error and leaves the file system as it is; after a first \<open>New\<close> that succeeded, a
  second \<open>New\<close> on the same path returns the same driver, no error and the same file
  system; and no call of \<open>New\<close>, whatever it returns, removes or changes a node.
\<close>

theorem New_reopen:
  "((\<exists>m. os_Stat fs (filepath_Clean dir0) = Inr m) \<longrightarrow>
      New fs dir0 = (fs, \<lparr>dir = filepath_Clean dir0\<rparr>, None)) \<and>
   (New fs dir0 = (fs1, d1, None) \<longrightarrow> New fs1 dir0 = (fs1, d1, None)) \<and>
   (New fs dir0 = (fs1, d1, e) \<longrightarrow> (\<forall>p n. lookup fs p = Some n \<longrightarrow> lookup fs1 p = Some n))"
proof (intro conjI impI allI)
  assume "\<exists>m. os_Stat fs (filepath_Clean dir0) = Inr m"
  then show "New fs dir0 = (fs, \<lparr>dir = filepath_Clean dir0\<rparr>, None)"
    by (auto simp: New_def)
next
  assume n: "New fs dir0 = (fs1, d1, None)"
  show "New fs1 dir0 = (fs1, d1, None)"
  proof (cases "os_Stat fs (filepath_Clean dir0)")
    case (Inr m)
    then show ?thesis using n by (auto simp: New_def)
  next
    case (Inl err)
    then have "os_MkdirAll fs (filepath_Clean dir0) = (fs1, None)" "d1 = \<lparr>dir = filepath_Clean dir0\<rparr>"
      using n by (auto simp: New_def Let_def split: prod.splits)
    then show ?thesis
      using MkdirAll_Stat [of fs "filepath_Clean dir0" fs1] by (simp add: New_def)
  qed
next
  fix p n
  assume "New fs dir0 = (fs1, d1, e)" "lookup fs p = Some n"
  then show "lookup fs1 p = Some n"
    using MkdirAll_keeps(1) [of fs "filepath_Clean dir0" fs1 e p n]
    by (auto simp: New_def Let_def split: sum.splits prod.splits)
qed

theorem New_reopen_witness:
  "(\<exists>m. os_Stat fs_john (filepath_Clean ''./db'') = Inr m) \<and>
   New fs_john ''./db'' = (fs_john, db, None) \<and>
   New fs_start ''./db'' = (fs_db, db, None) \<and>
   New fs_db ''./db'' = (fs_db, db, None) \<and>
   lookup fs_john [''srv'', ''db'', ''user'', ''John.json''] = Some (File john_json)"
proof -
  have 1: "New fs_start ''./db'' = (fs_db, db, None)" by code_simp
  have 2: "os_Stat fs_john (filepath_Clean ''./db'') = Inr ModeDir" by code_simp
  have 3: "lookup fs_john [''srv'', ''db'', ''user'', ''John.json''] = Some (File john_json)"
    by code_simp
  have 4: "filepath_Clean ''./db'' = ''db''" by code_simp
  show ?thesis
    using New_reopen [of fs_start "''./db''" fs_db db None]
      New_reopen [of fs_john "''./db''" fs_john db None] 1 2 3 4
    by (auto simp: db_def)
qed


subsection \<open>Writing and reading one record\<close>

text \<open>
  Claim C1 asks that a successful \<open>Write(c, r, v)\<close> followed by \<open>Read(c, r)\<close> succeeds
  and yields \<open>v\<close>. The code at the input of \<open>main\<close>: the store is opened on \<open>./db\<close>,
  \<open>Write("user", "John", "John")\<close> succeeds and leaves the file \<open>db/user/John.json\<close>, whose
  contents decode to the value written; \<open>Read("user", "John")\<close> then fails with the
  not-exist error of \<open>os.Stat\<close> on the bare path \<open>db/user/John\<close>, although the helper
  \<open>stat\<close>, which \<open>ReadAll\<close> and \<open>Delete\<close> use, finds the record.
\<close>

theorem Read_after_Write_fails:
  "New fs_start ''./db'' = (fs_db, db, None) \<and>
   Write sample_Marshal db fs_db ''user'' ''John'' (Text ''John'') = (fs_john, None) \<and>
   filepath_Join [dir db, ''user'', ''John''] = ''db/user/John'' \<and>
   ioutil_ReadFile fs_john ''db/user/John.json'' = Inr john_json \<and>
   sample_Unmarshal john_json = Some (Text ''John'') \<and>
   stat fs_john ''db/user/John'' = Inr ModeRegular \<and>
   os_Stat fs_john ''db/user/John'' = Inl (PathError ENOENT) \<and>
   Read sample_Unmarshal db fs_john ''user'' ''John'' = Inl (PathError ENOENT)"
  by code_simp


text \<open>
  Claim C2 asks that \<open>Read\<close> finds a stored record whether the caller passes its name
  with or without the extension. With the extension included it does not: for the
  record \<open>John\<close> of the collection \<open>user\<close>, stored as \<open>db/user/John.json\<close>, the name
  \<open>John.json\<close> passes the existence check, and \<open>Read\<close> then opens
  \<open>db/user/John.json.json\<close>, which does not exist.
\<close>

theorem Read_with_extension_fails:
  "Write sample_Marshal db fs_db ''user'' ''John'' (Text ''John'') = (fs_john, None) \<and>
   os_Stat fs_john (filepath_Join [dir db, ''user'', ''John.json'']) = Inr ModeRegular \<and>
   Read sample_Unmarshal db fs_john ''user'' ''John.json'' = Inl (PathError ENOENT)"
  by code_simp

text \<open>
  Claim C2, amended. \<open>Read\<close> appends the extension to whatever name it is given and opens
  that file only: when \<open>Read(c, r)\<close> succeeds, its value is the decoding of the contents
  of the file \<open><root>/c/r.json\<close> (for a name \<open>r\<close> that already carries the extension this
  is \<open>r.json.json\<close>); and when both keys are non-empty and the bare path
  \<open><root>/c/r\<close> exists, the result of \<open>Read\<close> is the result of reading and decoding that
  file.
\<close>

theorem Read_opens_extension_form:
  "(Read dec d fs c r = Inr v \<longrightarrow>
      c \<noteq> [] \<and> r \<noteq> [] \<and>
      (\<exists>b. ioutil_ReadFile fs (filepath_Join [dir d, c, r] @ ''.json'') = Inr b \<and>
           dec b = Some v)) \<and>
   (c \<noteq> [] \<and> r \<noteq> [] \<and> (\<exists>m. os_Stat fs (filepath_Join [dir d, c, r]) = Inr m) \<longrightarrow>
      Read dec d fs c r =
        (case ioutil_ReadFile fs (filepath_Join [dir d, c, r] @ ''.json'') of
           Inl err \<Rightarrow> Inl err
         | Inr b \<Rightarrow> (case dec b of None \<Rightarrow> Inl UnmarshalError | Some v' \<Rightarrow> Inr v')))"
  by (auto simp: Read_def Let_def split: if_splits sum.splits option.splits)

theorem Read_opens_extension_form_witness:
  "Write sample_Marshal db fs_john ''user'' ''John.json'' (Text ''Paul'') = (fs_john2, None) \<and>
   Read sample_Unmarshal db fs_john2 ''user'' ''John.json'' = Inr (Text ''Paul'') \<and>
   (\<exists>m. os_Stat fs_john2 (filepath_Join [dir db, ''user'', ''John.json'']) = Inr m) \<and>
   (\<exists>b. ioutil_ReadFile fs_john2 ''db/user/John.json.json'' = Inr b \<and>
        sample_Unmarshal b = Some (Text ''Paul''))"
proof -
  have 1: "Read sample_Unmarshal db fs_john2 ''user'' ''John.json'' = Inr (Text ''Paul'')"
    by code_simp
  have 2: "os_Stat fs_john2 (filepath_Join [dir db, ''user'', ''John.json'']) = Inr ModeRegular"
    by code_simp
  have 3: "filepath_Join [dir db, ''user'', ''John.json''] @ ''.json'' = ''db/user/John.json.json''"
    by code_simp
  have 4: "Write sample_Marshal db fs_john ''user'' ''John.json'' (Text ''Paul'') = (fs_john2, None)"
    by code_simp
  show ?thesis
    using Read_opens_extension_form
      [of sample_Unmarshal db fs_john2 "''user''" "''John.json''" "Text ''Paul''"] 1 2 3 4
    by auto
qed


text \<open>
  Claim C8. After a successful \<open>Write(c, r, v)\<close> the record file
  \<open><root>/c/r.json\<close> holds the encoding of \<open>v\<close> followed by one newline byte, and
  nothing else.
\<close>

theorem Write_stores_encoding_and_newline:
  assumes "Write enc d fs c r v = (fs', None)"
  shows "\<exists>b. enc v = Some b \<and>
           ioutil_ReadFile fs' (filepath_Join [filepath_Join [dir d, c], r @ ''.json''])
             = Inr (b @ [CHR 0x0A])"
proof -
  let ?dir = "filepath_Join [dir d, c]"
  let ?fnl = "filepath_Join [?dir, r @ ''.json'']"
  let ?tmp = "?fnl @ ''.tmp''"
  have ne: "c \<noteq> []" "r \<noteq> []"
    using assms by (auto simp: Write_def split: if_splits)
  obtain fs1 e1 where m: "os_MkdirAll fs ?dir = (fs1, e1)" by (cases "os_MkdirAll fs ?dir")
  have e1: "e1 = None"
    using assms ne m by (cases e1) (auto simp: Write_def Let_def)
  obtain b0 where b0: "enc v = Some b0"
    using assms ne m e1 by (cases "enc v") (auto simp: Write_def Let_def)
  let ?b = "b0 @ [CHR 0x0A]"
  obtain fs2 e2 where w: "ioutil_WriteFile fs1 ?tmp ?b = (fs2, e2)"
    by (cases "ioutil_WriteFile fs1 ?tmp ?b")
  have e2: "e2 = None"
    using assms ne m e1 b0 w by (cases e2) (auto simp: Write_def Let_def)
  have rn: "os_Rename fs2 ?tmp ?fnl = (fs', None)"
    using assms ne m e1 b0 w e2 by (simp add: Write_def Let_def)
  have fs2: "fs2 = put fs1 (resolve fs1 ?tmp) (File ?b)"
    using w e2 by (auto dest: WriteFile_ok(1))
  have res2: "resolve fs2 s = resolve fs1 s" for s
    by (rule resolve_cwd_cong) (simp add: fs2 cwd_put)
  have "lookup fs2 (resolve fs2 ?tmp) = Some (File ?b)"
    unfolding res2 by (simp add: fs2 lookup_put)
  with rn have fs': "fs' = move_file fs2 (resolve fs2 ?tmp) (resolve fs2 ?fnl) ?b"
    by (rule Rename_file_ok(1))
  have "resolve fs' ?fnl = resolve fs2 ?fnl"
    by (rule resolve_cwd_cong) (simp add: fs' move_file_def)
  then have "lookup fs' (resolve fs' ?fnl) = Some (File ?b)"
    by (simp add: fs' lookup_move_file)
  then have "ioutil_ReadFile fs' ?fnl = Inr ?b"
    using Rename_names [OF rn] by (intro ReadFile_File)
  then show ?thesis using b0 by simp
qed

theorem Write_stores_encoding_and_newline_witness:
  "Write sample_Marshal db fs_db ''user'' ''John'' (Text ''John'') = (fs_john, None) \<and>
   (\<exists>b. sample_Marshal (Text ''John'') = Some b \<and>
        ioutil_ReadFile fs_john ''db/user/John.json'' = Inr (b @ [CHR 0x0A]))"
proof -
  have 1: "Write sample_Marshal db fs_db ''user'' ''John'' (Text ''John'') = (fs_john, None)"
    by code_simp
  have 2: "filepath_Join [filepath_Join [dir db, ''user''], ''John'' @ ''.json''] = ''db/user/John.json''"
    by code_simp
  show ?thesis
    using Write_stores_encoding_and_newline [OF 1] 1 unfolding 2 by simp
qed


subsection \<open>Failing calls\<close>





text \<open>
  Claim C4 asks that every operation, \<open>Delete\<close> included, rejects an empty collection or
  resource key and changes nothing. \<open>Delete\<close> has no such check: \<open>Delete("user", "")\<close>, the
  call that ends \<open>main\<close>, resolves to the collection directory, removes it with the
  record in it, and returns no error.
\<close>

theorem Delete_empty_resource_succeeds:
  "Delete db fs_john ''user'' '''' = (fs_db, None) \<and>
   os_Stat fs_john ''db/user/John.json'' = Inr ModeRegular \<and>
   os_Stat fs_db ''db/user/John.json'' = Inl (PathError ENOENT) \<and>
   fs_db \<noteq> fs_john"
  by code_simp

text \<open>
  Claim C4, amended. \<open>Write\<close> and \<open>Read\<close> with an empty collection or an empty resource
  key, and \<open>ReadAll\<close> with an empty collection key, fail with the error that the key is
  required, and the failing \<open>Write\<close> leaves the file system as it is (\<open>Read\<close> and \<open>ReadAll\<close>
  never change it). \<open>Delete\<close> checks neither key.
\<close>

theorem empty_key_rejected:
  "(c = [] \<or> r = [] \<longrightarrow>
      Write enc d fs c r v =
        (fs, Some (Errorf (if c = [] then ''collection is required''
                           else ''resourse is required''))) \<and>
      Read dec d fs c r =
        Inl (Errorf (if c = [] then ''collection is required'' else ''resource is required''))) \<and>
   (c = [] \<longrightarrow> ReadAll d fs c = Inl (Errorf ''collection is required''))"
  by (auto simp: Write_def Read_def ReadAll_def)

theorem empty_key_rejected_witness:
  "Write sample_Marshal db fs_john [] ''John'' (Text ''John'')
     = (fs_john, Some (Errorf ''collection is required'')) \<and>
   Write sample_Marshal db fs_john ''user'' [] (Text ''John'')
     = (fs_john, Some (Errorf ''resourse is required'')) \<and>
   Read sample_Unmarshal db fs_john [] ''John'' = Inl (Errorf ''collection is required'') \<and>
   Read sample_Unmarshal db fs_john ''user'' [] = Inl (Errorf ''resource is required'') \<and>
   ReadAll db fs_john [] = Inl (Errorf ''collection is required'')"
  using empty_key_rejected [of "[]" "''John''" sample_Marshal db fs_john "Text ''John''" sample_Unmarshal]
    empty_key_rejected [of "''user''" "[]" sample_Marshal db fs_john "Text ''John''" sample_Unmarshal]
  by simp


subsection \<open>Deleting\<close>

text \<open>
  Claim C6. When neither the bare path \<open><root>/c/r\<close> nor that path with the extension
  exists, \<open>Delete(c, r)\<close> fails with the error that the path does not exist, and the
  file system, with the collection directory and every record in it, is unchanged.
\<close>

theorem Delete_missing:
  assumes "\<forall>m. os_Stat fs (filepath_Join [dir d, c, r]) \<noteq> Inr m"
    and "\<forall>m. os_Stat fs (filepath_Join [dir d, c, r] @ ''.json'') \<noteq> Inr m"
  shows "Delete d fs c r =
           (fs, Some (Errorf (filepath_Join [dir d, c, r] @ '' does not exist'')))"
  using assms
  by (auto simp: Delete_def stat_def Let_def split: sum.splits FileMode.splits)

theorem Delete_missing_witness:
  "(\<forall>m. os_Stat fs_john (filepath_Join [dir db, ''user'', ''nonexistent'']) \<noteq> Inr m) \<and>
   (\<forall>m. os_Stat fs_john (filepath_Join [dir db, ''user'', ''nonexistent''] @ ''.json'') \<noteq> Inr m) \<and>
   Delete db fs_john ''user'' ''nonexistent''
     = (fs_john, Some (Errorf ''db/user/nonexistent does not exist''))"
proof -
  have 1: "os_Stat fs_john (filepath_Join [dir db, ''user'', ''nonexistent''])
             = Inl (PathError ENOENT)"
    by code_simp
  have 2: "os_Stat fs_john (filepath_Join [dir db, ''user'', ''nonexistent''] @ ''.json'')
             = Inl (PathError ENOENT)"
    by code_simp
  have 3: "filepath_Join [dir db, ''user'', ''nonexistent''] = ''db/user/nonexistent''"
    by code_simp
  have "Delete db fs_john ''user'' ''nonexistent''
          = (fs_john, Some (Errorf (filepath_Join [dir db, ''user'', ''nonexistent'']
                                      @ '' does not exist'')))"
    by (rule Delete_missing) (simp_all add: 1 2)
  then show ?thesis using 1 2 by (simp add: 3)
qed


text \<open>
  Claim C10. For a resource name that already ends in \<open>.json\<close> and exists as a regular
  file in the collection, \<open>Delete\<close> returns no error and the record stays where it is,
  with its contents: \<open>Delete\<close> finds the file under the name given and then removes the
  path with a second \<open>.json\<close> appended. When that path does not exist the removal
  reports success and the file system is unchanged.
\<close>

theorem Delete_with_extension_keeps_record:
  assumes wf: "wf_fs fs" and c: "path_element c" and x: "CHR ''/'' \<notin> set x"
    and reg: "os_Stat fs (filepath_Join [dir d, c, x @ ''.json'']) = Inr ModeRegular"
  shows "\<exists>fs'. Delete d fs c (x @ ''.json'') = (fs', None) \<and>
           os_Stat fs' (filepath_Join [dir d, c, x @ ''.json'']) = Inr ModeRegular \<and>
           ioutil_ReadFile fs' (filepath_Join [dir d, c, x @ ''.json''])
             = ioutil_ReadFile fs (filepath_Join [dir d, c, x @ ''.json'']) \<and>
           ((\<forall>m. os_Stat fs (filepath_Join [dir d, c, x @ ''.json''] @ ''.json'') \<noteq> Inr m)
              \<longrightarrow> fs' = fs)"
proof -
  let ?r = "x @ ''.json''"
  let ?path = "filepath_Join [dir d, c, ?r]"
  let ?Q = "resolve fs (dir d) @ [c]"
  have r: "path_element ?r"
    using x by (cases x; cases "tl x") (auto simp: path_element_def)
  have rr: "path_element (?r @ ''.json'')"
    using r by (rule path_element_ext) simp
  have P: "resolve fs ?path = ?Q @ [?r]"
    using c r by (simp add: resolve_Join_three)
  have ext: "?path @ ''.json'' = filepath_Join [dir d, c, ?r @ ''.json'']"
    using c r by (intro Join_three_ext) simp_all
  have P': "resolve fs (?path @ ''.json'') = ?Q @ [?r @ ''.json'']"
    unfolding ext using c rr by (simp add: resolve_Join_three)
  obtain n where n: "lookup fs (?Q @ [?r]) = Some n" "mode_of n = ModeRegular" "?path \<noteq> []"
    using reg unfolding Stat_Inr P by auto
  have st: "stat fs ?path = Inr ModeRegular"
    using reg by (simp add: stat_def)
  have "node_at fs (?Q @ [?r @ ''.json'']) \<noteq> Inl ENOTDIR"
    using wf n(1) by (rule node_at_sibling)
  then have rm: "os_RemoveAll fs (?path @ ''.json'') = (remove_tree fs (?Q @ [?r @ ''.json'']), None)"
    using RemoveAll_ok [of "?path @ ''.json''" fs] endsWithDot_json [of ?path]
    by (simp add: P')
  let ?fs = "remove_tree fs (?Q @ [?r @ ''.json''])"
  have del: "Delete d fs c ?r = (?fs, None)"
    using st rm by (simp add: Delete_def Let_def)
  have res: "resolve ?fs ?path = ?Q @ [?r]"
    using P resolve_cwd_cong [of ?fs fs ?path] by (simp add: cwd_remove_tree)
  have keep: "lookup ?fs (?Q @ [?r]) = Some n"
    using n(1) by (simp add: lookup_remove_tree)
  have "os_Stat ?fs ?path = Inr ModeRegular"
    unfolding Stat_Inr res using keep n by simp
  moreover have "ioutil_ReadFile ?fs ?path = ioutil_ReadFile fs ?path"
    unfolding ioutil_ReadFile_def res P node_at_Some [OF keep] node_at_Some [OF n(1)] ..
  moreover have "?fs = fs" if "\<forall>m. os_Stat fs (?path @ ''.json'') \<noteq> Inr m"
  proof -
    have "lookup fs (?Q @ [?r @ ''.json'']) = None"
      using that unfolding Stat_Inr P' by (cases "lookup fs (?Q @ [?r @ ''.json''])") auto
    with wf show ?thesis by (rule remove_tree_missing)
  qed
  ultimately show ?thesis using del by blast
qed

theorem Delete_with_extension_keeps_record_witness:
  "wf_fs fs_john \<and> path_element ''user'' \<and> CHR ''/'' \<notin> set ''John'' \<and>
   os_Stat fs_john (filepath_Join [dir db, ''user'', ''John'' @ ''.json'']) = Inr ModeRegular \<and>
   (\<forall>m. os_Stat fs_john (filepath_Join [dir db, ''user'', ''John'' @ ''.json''] @ ''.json'')
          \<noteq> Inr m) \<and>
   Delete db fs_john ''user'' (''John'' @ ''.json'') = (fs_john, None) \<and>
   ioutil_ReadFile fs_john (filepath_Join [dir db, ''user'', ''John'' @ ''.json'']) = Inr john_json"
proof -
  have 1: "wf_fs fs_john" by code_simp
  have 2: "path_element ''user''" by code_simp
  have 3: "CHR ''/'' \<notin> set ''John''" by simp
  have 4: "os_Stat fs_john (filepath_Join [dir db, ''user'', ''John'' @ ''.json'']) = Inr ModeRegular"
    by code_simp
  have 5: "os_Stat fs_john (filepath_Join [dir db, ''user'', ''John'' @ ''.json''] @ ''.json'')
             = Inl (PathError ENOENT)"
    by code_simp
  have 6: "ioutil_ReadFile fs_john (filepath_Join [dir db, ''user'', ''John'' @ ''.json''])
             = Inr john_json"
    by code_simp
  show ?thesis
    using Delete_with_extension_keeps_record [OF 1 2 3 4] 1 2 4 5 6 by auto
qed

text \<open>
  Claim C5. For an existing collection \<open>c\<close>, \<open>Delete(c, "")\<close> returns no error and removes
  the collection directory with everything in it, leaving the rest of the file system
  as it was; \<open>ReadAll(c)\<close> afterwards fails with the not-exist error. The collection
  name is a path element and the file system is well formed.
\<close>

theorem Delete_collection:
  assumes wf: "wf_fs fs" and c: "path_element c"
    and ex: "os_Stat fs (filepath_Join [dir d, c]) = Inr ModeDir"
  shows "\<exists>fs'. Delete d fs c [] = (fs', None) \<and>
           (\<forall>q. prefix (resolve fs (filepath_Join [dir d, c])) q \<longrightarrow> lookup fs' q = None) \<and>
           (\<forall>q. \<not> prefix (resolve fs (filepath_Join [dir d, c])) q
                 \<longrightarrow> lookup fs' q = lookup fs q) \<and>
           ReadAll d fs' c = Inl (PathError ENOENT)"
proof -
  let ?dir = "filepath_Join [dir d, c]"
  let ?R = "resolve fs (dir d)"
  let ?fs = "remove_tree fs (?R @ [c])"
  have cj: "path_element (c @ ''.json'')"
    using c by (rule path_element_ext) simp
  have Q: "resolve fs ?dir = ?R @ [c]"
    using c by (rule resolve_Join_two)
  have Q': "resolve fs (?dir @ ''.json'') = ?R @ [c @ ''.json'']"
    using c cj by (simp add: Join_two_ext resolve_Join_two)
  have ne: "?dir \<noteq> []" and isdir: "lookup fs (?R @ [c]) = Some Dir"
    using ex unfolding Stat_Inr Q by (auto simp: mode_of_Dir)
  have nd: "\<not> endsWithDot ?dir"
    using Join_two_suffix [OF c, of "dir d"] endsWithDot_element [OF c] by auto
  have st: "stat fs ?dir = Inr ModeDir"
    using ex by (simp add: stat_def)
  have rm: "os_RemoveAll fs ?dir = (?fs, None)"
    using RemoveAll_ok [OF ne nd, of fs] isdir by (simp add: Q node_at_Some)
  have del: "Delete d fs c [] = (?fs, None)"
    using st rm c by (simp add: Delete_def Join_three_empty)
  have res: "resolve ?fs s = resolve fs s" for s
    by (rule resolve_cwd_cong) (simp add: cwd_remove_tree)
  have above: "lookup ?fs q = Some Dir" if "prefix q (?R @ [c])" "q \<noteq> ?R @ [c]" for q
  proof -
    have "lookup fs q = Some Dir"
      using wf isdir that by (rule wf_ancestor)
    moreover have "\<not> prefix (?R @ [c]) q"
      using that by (auto dest: prefix_order.antisym)
    ultimately show ?thesis by (simp add: lookup_remove_tree)
  qed
  have gone: "node_at ?fs (?R @ [c]) = Inl ENOENT"
    using above by (intro node_at_ENOENT) (simp_all add: lookup_remove_tree)
  have s1: "os_Stat ?fs ?dir = Inl (PathError ENOENT)"
    using ne gone by (simp add: os_Stat_def res Q)
  have rd: "ioutil_ReadDir ?fs ?dir = Inl (PathError ENOENT)"
    using ne gone by (simp add: ioutil_ReadDir_def res Q)
  have s2: "os_Stat ?fs (?dir @ ''.json'') = Inl (PathError ENOENT)"
    if "os_Stat ?fs (?dir @ ''.json'') = Inl err" for err
  proof -
    have none: "lookup ?fs (?R @ [c @ ''.json'']) = None"
      using that unfolding os_Stat_def res Q'
      by (cases "lookup ?fs (?R @ [c @ ''.json''])") (auto simp: node_at_Some)
    have "lookup ?fs q = Some Dir" if "prefix q (?R @ [c @ ''.json''])" "q \<noteq> ?R @ [c @ ''.json'']" for q
    proof -
      have "prefix q ?R" using that by (auto simp: prefix_snoc)
      then have "prefix q (?R @ [c])" "q \<noteq> ?R @ [c]" by auto
      then show ?thesis by (rule above)
    qed
    with none have "node_at ?fs (?R @ [c @ ''.json'']) = Inl ENOENT"
      by (intro node_at_ENOENT)
    then show ?thesis
      using ne by (simp add: os_Stat_def res Q')
  qed
  have "ReadAll d ?fs c = Inl (PathError ENOENT)"
  proof (cases "os_Stat ?fs (?dir @ ''.json'')")
    case (Inl err)
    then show ?thesis
      using c s1 s2 [OF Inl]
      by (simp add: ReadAll_def stat_def os_IsNotExist_def path_element_def)
  next
    case (Inr m)
    then show ?thesis
      using c s1 rd
      by (simp add: ReadAll_def stat_def os_IsNotExist_def path_element_def)
  qed
  moreover have "\<forall>q. prefix (resolve fs ?dir) q \<longrightarrow> lookup ?fs q = None"
    unfolding Q by (simp add: lookup_remove_tree)
  moreover have "\<forall>q. \<not> prefix (resolve fs ?dir) q \<longrightarrow> lookup ?fs q = lookup fs q"
    unfolding Q by (simp add: lookup_remove_tree)
  ultimately show ?thesis using del by blast
qed

theorem Delete_collection_witness:
  "wf_fs fs_john \<and> path_element ''user'' \<and>
   os_Stat fs_john (filepath_Join [dir db, ''user'']) = Inr ModeDir \<and>
   resolve fs_john (filepath_Join [dir db, ''user'']) = [''srv'', ''db'', ''user''] \<and>
   (\<exists>fs'. Delete db fs_john ''user'' [] = (fs', None) \<and>
      lookup fs' [''srv'', ''db'', ''user''] = None \<and>
      lookup fs' [''srv'', ''db'', ''user'', ''John.json''] = None \<and>
      lookup fs' [''srv'', ''db''] = Some Dir \<and>
      ReadAll db fs' ''user'' = Inl (PathError ENOENT))"
proof -
  have 1: "wf_fs fs_john" by code_simp
  have 2: "path_element ''user''" by code_simp
  have 3: "os_Stat fs_john (filepath_Join [dir db, ''user'']) = Inr ModeDir" by code_simp
  have 4: "resolve fs_john (filepath_Join [dir db, ''user'']) = [''srv'', ''db'', ''user'']"
    by code_simp
  have 5: "lookup fs_john [''srv'', ''db''] = Some Dir" by code_simp
  obtain fs' where d: "Delete db fs_john ''user'' [] = (fs', None)"
    and r: "\<forall>q. prefix [''srv'', ''db'', ''user''] q \<longrightarrow> lookup fs' q = None"
    and k: "\<forall>q. \<not> prefix [''srv'', ''db'', ''user''] q \<longrightarrow> lookup fs' q = lookup fs_john q"
    and a: "ReadAll db fs' ''user'' = Inl (PathError ENOENT)"
    using Delete_collection [OF 1 2 3] unfolding 4 by blast
  have "lookup fs' [''srv'', ''db'', ''user''] = None"
    "lookup fs' [''srv'', ''db'', ''user'', ''John.json''] = None"
    using r by simp_all
  moreover have "lookup fs' [''srv'', ''db''] = Some Dir"
    using k 5 by simp
  ultimately show ?thesis using 1 2 3 4 d a by blast
qed

subsection \<open>Reading a collection\<close>

text \<open>
  Claim C7. After \<open>N\<close> successful writes of distinct resources into a collection that
  did not exist before, \<open>ReadAll\<close> succeeds and returns exactly \<open>N\<close> records: as a
  multiset, the records are the encodings of the values written, each followed by the
  newline, and so, for a codec whose decoder gives back the value from its encoding
  and the newline, the records decode to the values written. The names are path
  elements (a resource name has no separator), at least one record is written, and
  the file system is well formed.
\<close>

theorem ReadAll_after_writes:
  assumes wf: "wf_fs fs" and c: "path_element c"
    and names: "\<forall>(r, v) \<in> set ws. CHR ''/'' \<notin> set r"
    and dist: "distinct (map fst ws)" and some: "ws \<noteq> []"
    and fresh: "\<forall>m. os_Stat fs (filepath_Join [dir d, c]) \<noteq> Inr m"
    and writes: "write_all enc d fs c ws = (fs', errs)" and ok: "\<forall>e \<in> set errs. e = None"
    and codec: "\<forall>v b. enc v = Some b \<longrightarrow> dec (b @ [CHR 0x0A]) = Some v"
  shows "\<exists>records.
           ReadAll d fs' c = Inr records \<and>
           length records = length ws \<and>
           mset (map Some records) =
             mset (map (\<lambda>(r, v). map_option (\<lambda>b. b @ [CHR 0x0A]) (enc v)) ws) \<and>
           mset (map dec records) = mset (map (\<lambda>(r, v). Some v) ws)"
proof -
  define P where "P = resolve fs (dir d) @ [c]"
  define k where "k = (\<lambda>(r, v :: 'a). r @ ''.json'')"
  define g where "g = (\<lambda>x. file_contents fs' (P @ [x]))"
  note wa = write_all_ok [OF wf c names dist writes ok P_def]
  have wf': "wf_fs fs'" and cwd': "cwd fs' = cwd fs" and dir': "lookup fs' P = Some Dir"
    using wa some by auto
  have rec: "\<exists>b. enc v = Some b \<and> lookup fs' (P @ [r @ ''.json'']) = Some (File (b @ [CHR 0x0A]))"
    if "(r, v) \<in> set ws" for r v
    using wa that by auto
  have none: "lookup fs P = None"
    using fresh Join_two_not_Nil [OF c, of "dir d"] resolve_Join_two [OF c, of fs "dir d"]
    unfolding Stat_Inr P_def by (cases "lookup fs (resolve fs (dir d) @ [c])") auto
  have empty: "lookup fs (P @ [x]) = None" for x
    using wf none by (rule wf_missing_below) simp
  have other: "lookup fs' (P @ [x]) = None" if "x \<notin> k ` set ws" for x
    using wa that empty by (auto simp: k_def)
  have E: "set (entries fs' P) = k ` set ws"
  proof (intro set_eqI iffI)
    fix x assume "x \<in> set (entries fs' P)"
    then have "lookup fs' (P @ [x]) \<noteq> None"
      by (simp add: entries_set)
    then show "x \<in> k ` set ws"
      using other [of x] by (cases "x \<in> k ` set ws") simp_all
  next
    fix x assume "x \<in> k ` set ws"
    then obtain r v where "(r, v) \<in> set ws" "x = r @ ''.json''"
      by (auto simp: k_def)
    then show "x \<in> set (entries fs' P)"
      using rec [of r v] by (auto simp: entries_set)
  qed
  have files: "\<forall>x n. lookup fs' (P @ [x]) = Some n \<longrightarrow> (\<exists>b. n = File b)"
  proof (intro allI impI)
    fix x n assume l: "lookup fs' (P @ [x]) = Some n"
    then have "x \<in> k ` set ws"
      using other [of x] by (cases "x \<in> k ` set ws") simp_all
    then obtain r v where "(r, v) \<in> set ws" "x = r @ ''.json''"
      by (auto simp: k_def)
    then show "\<exists>b. n = File b" using rec [of r v] l by auto
  qed
  have P': "P = resolve fs' (dir d) @ [c]"
    using resolve_cwd_cong [OF cwd', of "dir d"] by (simp add: P_def)
  have ra: "ReadAll d fs' c = Inr (map g (sort (entries fs' P)))"
    unfolding g_def using wf' c dir' P' files by (rule ReadAll_files)
  have kk: "map k ws = map (\<lambda>r. r @ ''.json'') (map fst ws)"
    by (simp add: k_def case_prod_unfold)
  have "inj_on (\<lambda>r. r @ ''.json'') (set (map fst ws))"
    by (rule inj_onI) simp
  with dist have dk: "distinct (map k ws)"
    unfolding kk by (simp only: distinct_map)
  have "distinct (entries fs' P)"
    using wf' by (intro entries_distinct) (simp add: wf_fs_def)
  moreover have "set (entries fs' P) = set (map k ws)"
    using E by simp
  ultimately have "mset (entries fs' P) = mset (map k ws)"
    using dk by (simp only: set_eq_iff_mset_eq_distinct)
  then have m: "mset (map g (sort (entries fs' P))) = image_mset (g \<circ> k) (mset ws)"
    by (simp add: multiset.map_comp)
  define records where "records = map g (sort (entries fs' P))"
  have mr: "mset records = image_mset (g \<circ> k) (mset ws)"
    using m by (simp only: records_def)
  have gk: "\<exists>b. enc v = Some b \<and> g (k (r, v)) = b @ [CHR 0x0A]" if "(r, v) \<in> set ws" for r v
    using rec [OF that] by (auto simp: g_def k_def file_contents_def)
  have via: "mset (map f records) = image_mset (\<lambda>x. f (g (k x))) (mset ws)" for f :: "string \<Rightarrow> 'c"
  proof -
    have "mset (map f records) = image_mset f (mset records)" by simp
    also have "\<dots> = image_mset f (image_mset (g \<circ> k) (mset ws))" by (simp only: mr)
    also have "\<dots> = image_mset (\<lambda>x. f (g (k x))) (mset ws)"
      by (simp add: multiset.map_comp comp_def)
    finally show ?thesis .
  qed
  have "image_mset (\<lambda>x. Some (g (k x))) (mset ws) =
        image_mset (\<lambda>(r, v). map_option (\<lambda>b. b @ [CHR 0x0A]) (enc v)) (mset ws)"
    by (rule image_mset_cong) (use gk in force)
  then have a: "mset (map Some records) =
      mset (map (\<lambda>(r, v). map_option (\<lambda>b. b @ [CHR 0x0A]) (enc v)) ws)"
    using via [of Some] by simp
  have "image_mset (\<lambda>x. dec (g (k x))) (mset ws) = image_mset (\<lambda>(r, v). Some v) (mset ws)"
    by (rule image_mset_cong) (use gk codec in force)
  then have b: "mset (map dec records) = mset (map (\<lambda>(r, v). Some v) ws)"
    using via [of dec] by simp
  have "size (mset records) = size (mset ws)"
    unfolding mr by simp
  then have "length records = length ws"
    by (simp only: size_mset)
  then show ?thesis using ra a b unfolding records_def by blast
qed

lemma sample_codec_roundtrip:
  "sample_Marshal v = Some b \<Longrightarrow> sample_Unmarshal (b @ [CHR 0x0A]) = Some v"
  by (cases v) (auto simp: sample_Marshal_def sample_Unmarshal_def)

theorem ReadAll_after_writes_witness:
  "wf_fs fs_db \<and> path_element ''user'' \<and>
   distinct (map fst two_users) \<and> two_users \<noteq> [] \<and>
   os_Stat fs_db (filepath_Join [dir db, ''user'']) = Inl (PathError ENOENT) \<and>
   snd (write_all sample_Marshal db fs_db ''user'' two_users) = [None, None] \<and>
   (\<exists>records.
      ReadAll db (fst (write_all sample_Marshal db fs_db ''user'' two_users)) ''user''
        = Inr records \<and>
      length records = 2 \<and>
      mset (map sample_Unmarshal records) = {#Some (Text ''Paul''), Some (Text ''John'')#})"
proof -
  have 1: "wf_fs fs_db" by code_simp
  have 2: "path_element ''user''" by code_simp
  have 3: "\<forall>(r, v) \<in> set two_users. CHR ''/'' \<notin> set r" by (simp add: two_users_def)
  have 4: "distinct (map fst two_users)" by (simp add: two_users_def)
  have 5: "two_users \<noteq> []" by (simp add: two_users_def)
  have 0: "os_Stat fs_db (filepath_Join [dir db, ''user'']) = Inl (PathError ENOENT)"
    by code_simp
  then have 6: "\<forall>m. os_Stat fs_db (filepath_Join [dir db, ''user'']) \<noteq> Inr m" by simp
  have 7: "snd (write_all sample_Marshal db fs_db ''user'' two_users) = [None, None]"
    by code_simp
  then have 8: "write_all sample_Marshal db fs_db ''user'' two_users =
      (fst (write_all sample_Marshal db fs_db ''user'' two_users), [None, None])"
    by (metis prod.collapse)
  have 9: "\<forall>e \<in> set [None :: error option, None]. e = None" by simp
  have 10: "\<forall>v b. sample_Marshal v = Some b \<longrightarrow> sample_Unmarshal (b @ [CHR 0x0A]) = Some v"
    using sample_codec_roundtrip by blast
  from ReadAll_after_writes [OF 1 2 3 4 5 6 8 9 10]
  obtain records
    where r: "ReadAll db (fst (write_all sample_Marshal db fs_db ''user'' two_users)) ''user''
                = Inr records"
      and l: "length records = length two_users"
      and m: "mset (map sample_Unmarshal records) = mset (map (\<lambda>(r, v). Some v) two_users)"
    by blast
  have "length records = 2"
    using l by (simp add: two_users_def)
  moreover have "mset (map sample_Unmarshal records) = {#Some (Text ''Paul''), Some (Text ''John'')#}"
    using m by (simp add: two_users_def)
  ultimately show ?thesis
    using r 0 1 2 4 5 7 by blast
qed

end
